theory Spec2Isabelle
  imports Main
begin

section \<open>Text helpers of the crawler\<close>

text \<open>
  Python strings are modelled as \<open>string\<close> (lists of 8-bit characters) and the
  text operations below are the ASCII instances of the Python ones: \<open>str.strip()\<close> removes
  the ASCII characters for which \<open>str.isspace\<close> holds (codes 9-13 and 28-32),
  \<open>str.lower()\<close> maps \<open>A-Z\<close> to \<open>a-z\<close>, and the regular-expression class
  \<open>\\d\<close> is \<open>0-9\<close>.
\<close>

definition is_space :: "char \<Rightarrow> bool" where
  "is_space c = (let n = (of_char c :: nat) in (9 \<le> n \<and> n \<le> 13) \<or> (28 \<le> n \<and> n \<le> 32))"

definition is_digit :: "char \<Rightarrow> bool" where
  "is_digit c = (let n = (of_char c :: nat) in 48 \<le> n \<and> n \<le> 57)"

definition strip :: "string \<Rightarrow> string" where
  "strip s = rev (dropWhile is_space (rev (dropWhile is_space s)))"

definition lower_char :: "char \<Rightarrow> char" where
  "lower_char c = (let n = (of_char c :: nat) in if 65 \<le> n \<and> n \<le> 90 then char_of (n + 32) else c)"

definition lower :: "string \<Rightarrow> string" where
  "lower s = map lower_char s"

text \<open>
  \<open>starts_with s p\<close> is \<open>s.startswith(p)\<close> and \<open>ends_with s p\<close> is
  \<open>s.endswith(p)\<close>.
\<close>

definition starts_with :: "string \<Rightarrow> string \<Rightarrow> bool" where
  "starts_with s p = (take (length p) s = p)"

definition ends_with :: "string \<Rightarrow> string \<Rightarrow> bool" where
  "ends_with s p = (length p \<le> length s \<and> drop (length s - length p) s = p)"

text \<open>
  \<open>split_first sep s\<close> is \<open>s.split(sep)[0]\<close> for a non-empty separator: the text
  before the leftmost occurrence of \<open>sep\<close>, or all of \<open>s\<close> when there is none.
\<close>

fun split_first :: "string \<Rightarrow> string \<Rightarrow> string" where
  "split_first sep [] = []"
| "split_first sep (c # cs) =
     (if starts_with (c # cs) sep then [] else c # split_first sep cs)"

text \<open>
  \<open>normalize_price\<close> is line 81 of the source,
  \<^verbatim>\<open>re.sub(r'[^\d.]', '', price.split(' to ')[0])\<close>: every character that is neither
  a digit nor a dot is deleted from the first segment.
\<close>

definition normalize_price :: "string \<Rightarrow> string" where
  "normalize_price price =
     filter (\<lambda>c. is_digit c \<or> c = CHR ''.'') (split_first '' to '' price)"

subsection \<open>Item identifiers\<close>

text \<open>
  \<open>match_itm s\<close> is \<^verbatim>\<open>re.match(r'/itm/(\d+)', s)\<close>: the pattern anchored at the start
  of \<open>s\<close>, with the greedy group \<open>\\d+\<close>. \<open>extract_item_id\<close> is the
  \<^verbatim>\<open>re.search\<close> of line 70: the match at the leftmost position that has one.
\<close>

definition match_itm :: "string \<Rightarrow> string option" where
  "match_itm s =
     (if starts_with s ''/itm/''
      then (let ds = takeWhile is_digit (drop 5 s) in if ds = [] then None else Some ds)
      else None)"

fun extract_item_id :: "string \<Rightarrow> string option" where
  "extract_item_id [] = None"
| "extract_item_id (c # cs) =
     (case match_itm (c # cs) of
        Some ds \<Rightarrow> Some ds
      | None \<Rightarrow> extract_item_id cs)"

section \<open>Data model\<close>

text \<open>
  What the crawler reads of a parsed page. An anchor element carries its \<open>href\<close>
  attribute or lacks it; \<^verbatim>\<open>elem['href']\<close> on an anchor without the attribute raises
  \<open>KeyError\<close>. A listing node (one \<^verbatim>\<open>li.s-item\<close>) is given by the results of the four
  \<^verbatim>\<open>item.find\<close> calls of \<open>parse_item\<close>: the text of the element found, or \<open>None\<close>.
  A page is its list of listing nodes and the result of
  \<^verbatim>\<open>soup.find('a', class_='pagination__next')\<close>.
\<close>

datatype anchor = Anchor (href: "string option")

record listing_node =
  title_elem :: "string option"
  price_elem :: "string option"
  link_elem :: "anchor option"
  condition_elem :: "string option"

record page =
  items :: "listing_node list"
  pagination_next :: "anchor option"

text \<open>The dictionary returned by \<open>parse_item\<close> (lines 102-107).\<close>

record item_data =
  title :: string
  condition :: string
  price :: string
  product_url :: string

datatype py_error = KeyError string

datatype fetch_result = RequestException string | Response page

text \<open>
  Calls of the logger, in order. Each message constructor stands for one format string of
  the source and carries the values interpolated into it.
\<close>

datatype level = DEBUG | INFO | WARNING | ERROR

datatype log_msg =
    SavedItem string string
  | SkippingItem string "string option"
  | NoItemId string
  | ParsedItem string string string
  | ProcessingPage string
  | FailedToFetch string string
  | FoundItems nat
  | SavingItems nat
  | FoundNextPage string
  | NoMorePages
  | StartingCrawl string "string option"
  | ProcessingPageNo nat
  | ExtractedNewItems int nat
  | CrawlCompleted string nat nat

type_synonym log_event = "level \<times> log_msg"

text \<open>
  The store's data directory is a list of (file name, content) entries; a file written by
  the crawler holds the dictionary that \<^verbatim>\<open>json.dumps\<close> serialises, any other file
  holds raw text. The world threaded through the crawl is that directory, the log, and
  the URLs requested so far.
\<close>

datatype content = JsonDoc item_data | Raw string

record world =
  files :: "(string \<times> content) list"
  log :: "log_event list"
  requests :: "string list"

text \<open>
  The crawler object: its store name, and the two external collaborators, the HTTP fetch
  followed by the HTML parse (\<open>fetch\<close>, a function of the URL) and
  \<^verbatim>\<open>urllib.parse.urljoin\<close>.
\<close>

record crawler =
  store_name :: string
  fetch :: "string \<Rightarrow> fetch_result"
  urljoin :: "string \<Rightarrow> string \<Rightarrow> string"

definition base_url :: "crawler \<Rightarrow> string" where
  "base_url c = ''https://www.ebay.com/sch/'' @ store_name c @ ''/m.html''"

definition logger :: "level \<Rightarrow> log_msg \<Rightarrow> world \<Rightarrow> world" where
  "logger lvl m w = w\<lparr>log := log w @ [(lvl, m)]\<rparr>"

section \<open>Persistence sink\<close>

text \<open>
  \<open>write_json_file\<close> (lines 61-66) opens \<open><item_id>.json\<close> in the data directory with
  mode \<open>'w'\<close>, which creates the file or replaces its content, and logs at debug level.
  The write is taken to succeed.
\<close>

definition json_name :: "string \<Rightarrow> string" where
  "json_name item_id = item_id @ ''.json''"

fun fs_write :: "string \<Rightarrow> content \<Rightarrow> (string \<times> content) list \<Rightarrow> (string \<times> content) list" where
  "fs_write name v [] = [(name, v)]"
| "fs_write name v ((n, x) # fs) =
     (if n = name then (name, v) # fs else (n, x) # fs_write name v fs)"

definition write_json_file :: "string \<Rightarrow> item_data \<Rightarrow> world \<Rightarrow> world" where
  "write_json_file item_id data w =
     logger DEBUG (SavedItem item_id (json_name item_id))
       (w\<lparr>files := fs_write (json_name item_id) (JsonDoc data) (files w)\<rparr>)"

text \<open>\<^verbatim>\<open>len([f for f in os.listdir(self.data_dir) if f.endswith('.json')])\<close> (line 158).\<close>

definition json_count :: "(string \<times> content) list \<Rightarrow> nat" where
  "json_count fs = length (filter (\<lambda>f. ends_with f ''.json'') (map fst fs))"

section \<open>Record extractor\<close>

text \<open>
  \<open>parse_item\<close> (lines 73-107). The result is the \<open>KeyError\<close> raised by
  \<^verbatim>\<open>link_elem['href']\<close>, or the logger calls made together with the value returned
  (\<open>None\<close> or the dictionary). \<open>filter_rejects\<close> is the test of line 92; as a truth
  value a \<open>condition_filter\<close> that is \<open>None\<close> or the empty string is false.
\<close>

definition filter_rejects :: "string option \<Rightarrow> string \<Rightarrow> bool" where
  "filter_rejects condition_filter cond =
     (case condition_filter of
        None \<Rightarrow> False
      | Some f \<Rightarrow> f \<noteq> [] \<and> lower cond \<noteq> lower f)"

definition parse_item ::
  "listing_node \<Rightarrow> string option \<Rightarrow> py_error + (log_event list \<times> item_data option)" where
  "parse_item item condition_filter =
     (let title_v = (case title_elem item of Some t \<Rightarrow> strip t | None \<Rightarrow> ''No title'');
          price0 = (case price_elem item of Some t \<Rightarrow> strip t | None \<Rightarrow> ''0.00'');
          price_v = normalize_price price0
      in case link_elem item of
           Some (Anchor None) \<Rightarrow> Inl (KeyError ''href'')
         | None \<Rightarrow> Inr ([], None)
         | Some (Anchor (Some url)) \<Rightarrow>
             if url = [] then Inr ([], None)
             else
               let condition_v =
                     (case condition_elem item of Some t \<Rightarrow> strip t | None \<Rightarrow> ''Unknown'')
               in if filter_rejects condition_filter condition_v
                  then Inr ([(DEBUG, SkippingItem condition_v condition_filter)], None)
                  else
                    (case extract_item_id url of
                       None \<Rightarrow> Inr ([(WARNING, NoItemId url)], None)
                     | Some item_id \<Rightarrow>
                         Inr ([(DEBUG, ParsedItem title_v condition_v price_v)],
                              Some \<lparr>title = title_v, condition = condition_v,
                                    price = price_v, product_url = url\<rparr>)))"

section \<open>Crawl driver\<close>

text \<open>
  The loop of lines 124-130 of \<open>process_page\<close>: the logger calls of \<open>parse_item\<close> and
  the list of pending writes, in page order.
\<close>

fun collect_tasks ::
  "listing_node list \<Rightarrow> string option \<Rightarrow> py_error + (log_event list \<times> (string \<times> item_data) list)" where
  "collect_tasks [] condition_filter = Inr ([], [])"
| "collect_tasks (item # rest) condition_filter =
     (case parse_item item condition_filter of
        Inl e \<Rightarrow> Inl e
      | Inr (evs, data) \<Rightarrow>
          (case collect_tasks rest condition_filter of
             Inl e \<Rightarrow> Inl e
           | Inr (evs', tasks) \<Rightarrow>
               Inr (evs @ evs',
                    (case data of
                       None \<Rightarrow> tasks
                     | Some d \<Rightarrow>
                         (case extract_item_id (product_url d) of
                            None \<Rightarrow> tasks
                          | Some item_id \<Rightarrow> (item_id, d) # tasks)))))"

text \<open>
  \<^verbatim>\<open>await asyncio.gather(*tasks)\<close>: the writes of one page, performed here in task
  order.
\<close>

fun gather :: "(string \<times> item_data) list \<Rightarrow> world \<Rightarrow> world" where
  "gather [] w = w"
| "gather ((item_id, d) # tasks) w = gather tasks (write_json_file item_id d w)"

text \<open>
  \<open>process_page\<close> (lines 109-145) returns \<open>next_url\<close> and the new world, or the
  \<open>KeyError\<close> that escapes it. A failed fetch is caught, logged at error level and
  answered with \<open>None\<close>.
\<close>

definition process_page ::
  "crawler \<Rightarrow> string \<Rightarrow> string option \<Rightarrow> world \<Rightarrow> py_error + (string option \<times> world)" where
  "process_page c url condition_filter w =
     (let w1 = logger INFO (ProcessingPage url) w;
          w2 = w1\<lparr>requests := requests w1 @ [url]\<rparr>
      in case fetch c url of
           RequestException e \<Rightarrow> Inr (None, logger ERROR (FailedToFetch url e) w2)
         | Response soup \<Rightarrow>
             (let w3 = logger INFO (FoundItems (length (items soup))) w2
              in case collect_tasks (items soup) condition_filter of
                   Inl e \<Rightarrow> Inl e
                 | Inr (evs, tasks) \<Rightarrow>
                     (let w4 = w3\<lparr>log := log w3 @ evs\<rparr>;
                          w5 = (if tasks \<noteq> []
                                then gather tasks (logger INFO (SavingItems (length tasks)) w4)
                                else w4)
                      in case pagination_next soup of
                           None \<Rightarrow> Inr (None, logger INFO NoMorePages w5)
                         | Some (Anchor None) \<Rightarrow> Inl (KeyError ''href'')
                         | Some (Anchor (Some h)) \<Rightarrow>
                             (let next_url = urljoin c (base_url c) h
                              in if next_url \<noteq> []
                                 then Inr (Some next_url, logger INFO (FoundNextPage next_url) w5)
                                 else Inr (Some next_url, logger INFO NoMorePages w5)))))"

text \<open>
  One iteration of the \<open>while\<close> loop of \<open>crawl\<close> (lines 155-165), from the current
  URL, \<open>page_count\<close> and \<open>item_count\<close> to the next ones.
\<close>

definition crawl_iter ::
  "crawler \<Rightarrow> string option \<Rightarrow> string \<Rightarrow> nat \<Rightarrow> nat \<Rightarrow> world
     \<Rightarrow> py_error + (string option \<times> nat \<times> nat \<times> world)" where
  "crawl_iter c condition_filter url page_count item_count w =
     (case process_page c url condition_filter
             (logger INFO (ProcessingPageNo (page_count + 1)) w) of
        Inl e \<Rightarrow> Inl e
      | Inr (next_url, w') \<Rightarrow>
          (let current_items = json_count (files w');
               new_items = int current_items - int item_count
           in Inr (next_url, page_count + 1, current_items,
                   logger INFO (ExtractedNewItems new_items (page_count + 1)) w')))"

text \<open>\<open>while url:\<close> runs the body when the URL is neither \<open>None\<close> nor empty.\<close>

definition truthy :: "string option \<Rightarrow> bool" where
  "truthy url = (case url of None \<Rightarrow> False | Some u \<Rightarrow> u \<noteq> [])"

text \<open>
  The loop may run forever (a pagination chain with a cycle), so it is a partial function:
  \<open>None\<close> is the run that never returns.
\<close>

partial_function (option) crawl_loop ::
  "crawler \<Rightarrow> string option \<Rightarrow> string option \<Rightarrow> nat \<Rightarrow> nat \<Rightarrow> world
     \<Rightarrow> (py_error + (nat \<times> nat \<times> world)) option" where
  "crawl_loop c condition_filter url page_count item_count w =
     (case url of
        None \<Rightarrow> Some (Inr (page_count, item_count, w))
      | Some u \<Rightarrow>
          if u = [] then Some (Inr (page_count, item_count, w))
          else
            (case crawl_iter c condition_filter u page_count item_count w of
               Inl e \<Rightarrow> Some (Inl e)
             | Inr (next_url, page_count', item_count', w') \<Rightarrow>
                 crawl_loop c condition_filter next_url page_count' item_count' w'))"

declare crawl_loop.simps [code]

text \<open>\<open>crawl\<close> (lines 147-168) returns \<open>(page_count, item_count)\<close> and the final world.\<close>

definition crawl ::
  "crawler \<Rightarrow> string option \<Rightarrow> world \<Rightarrow> (py_error + (nat \<times> nat \<times> world)) option" where
  "crawl c condition_filter w =
     (case crawl_loop c condition_filter (Some (base_url c)) 0 0
             (logger INFO (StartingCrawl (store_name c) condition_filter) w) of
        None \<Rightarrow> None
      | Some (Inl e) \<Rightarrow> Some (Inl e)
      | Some (Inr (page_count, item_count, w')) \<Rightarrow>
          Some (Inr (page_count, item_count,
                     logger INFO (CrawlCompleted (store_name c) page_count item_count) w')))"

section \<open>Example markup\<close>

text \<open>Listing nodes, pages and stores used to run the definitions on concrete input.\<close>

definition node_new :: listing_node where
  "node_new = \<lparr>title_elem = Some ''Laptop'', price_elem = Some ''$1,234.56 to $1,999.00'',
     link_elem = Some (Anchor (Some ''https://www.ebay.com/itm/1001?hash=a'')),
     condition_elem = Some ''New''\<rparr>"

definition node_used :: listing_node where
  "node_used = \<lparr>title_elem = Some '' Mouse '', price_elem = Some ''$49.99'',
     link_elem = Some (Anchor (Some ''https://www.ebay.com/itm/1002'')),
     condition_elem = Some ''Used''\<rparr>"

definition node_bare :: listing_node where
  "node_bare = \<lparr>title_elem = None, price_elem = None,
     link_elem = Some (Anchor (Some ''https://www.ebay.com/itm/1003'')),
     condition_elem = None\<rparr>"

definition node_nolink :: listing_node where
  "node_nolink = \<lparr>title_elem = Some ''Shop on eBay'', price_elem = Some ''$20.00'',
     link_elem = None, condition_elem = Some ''Brand New''\<rparr>"

definition node_emptyhref :: listing_node where
  "node_emptyhref = \<lparr>title_elem = Some ''Keyboard'', price_elem = Some ''$15.00'',
     link_elem = Some (Anchor (Some [])), condition_elem = Some ''New''\<rparr>"

definition node_noid :: listing_node where
  "node_noid = \<lparr>title_elem = Some ''Cable'', price_elem = Some ''$3.00'',
     link_elem = Some (Anchor (Some ''https://www.ebay.com/p/55'')),
     condition_elem = Some ''New''\<rparr>"

definition page5 :: page where
  "page5 = \<lparr>items = [node_new, node_nolink, node_used, node_emptyhref, node_bare],
     pagination_next = None\<rparr>"

definition world0 :: world where
  "world0 = \<lparr>files = [], log = [], requests = []\<rparr>"

definition world_old :: world where
  "world_old = \<lparr>files = [(''notes.txt'', Raw ''x''),
       (''1002.json'', JsonDoc \<lparr>title = ''Old'', condition = ''Used'', price = ''1.00'',
          product_url = ''https://www.ebay.com/itm/1002''\<rparr>)],
     log = [], requests = []\<rparr>"

definition page_a :: page where
  "page_a = \<lparr>items = [node_new, node_bare],
     pagination_next = Some (Anchor (Some ''https://www.ebay.com/sch/chain/m.html?_pgn=2''))\<rparr>"

definition page_b :: page where
  "page_b = \<lparr>items = [node_nolink, node_noid],
     pagination_next = Some (Anchor (Some ''https://www.ebay.com/sch/chain/m.html?_pgn=3''))\<rparr>"

definition page_c :: page where
  "page_c = \<lparr>items = [node_used], pagination_next = None\<rparr>"

definition page_end :: page where
  "page_end = \<lparr>items = [], pagination_next = None\<rparr>"

text \<open>
  \<open>shop5\<close> serves \<open>page5\<close>; \<open>chain_store\<close> serves the three pages
  \<open>page_a\<close>, \<open>page_b\<close>, \<open>page_c\<close>; \<open>flaky_store\<close> serves \<open>page_a\<close> and fails
  on the second page; \<open>short_store\<close> serves \<open>page_a\<close> and an empty last page. Their
  links are absolute, for which \<open>urljoin\<close> returns the link.
\<close>

definition shop5 :: crawler where
  "shop5 = \<lparr>store_name = ''shop'',
     fetch = (\<lambda>u. if u = ''https://www.ebay.com/sch/shop/m.html'' then Response page5
                  else RequestException ''404 Client Error''),
     urljoin = (\<lambda>b h. h)\<rparr>"

definition chain_store :: crawler where
  "chain_store = \<lparr>store_name = ''chain'',
     fetch = (\<lambda>u. if u = ''https://www.ebay.com/sch/chain/m.html'' then Response page_a
                  else if u = ''https://www.ebay.com/sch/chain/m.html?_pgn=2'' then Response page_b
                  else if u = ''https://www.ebay.com/sch/chain/m.html?_pgn=3'' then Response page_c
                  else RequestException ''404 Client Error''),
     urljoin = (\<lambda>b h. h)\<rparr>"

definition flaky_store :: crawler where
  "flaky_store = \<lparr>store_name = ''chain'',
     fetch = (\<lambda>u. if u = ''https://www.ebay.com/sch/chain/m.html'' then Response page_a
                  else RequestException ''Read timed out''),
     urljoin = (\<lambda>b h. h)\<rparr>"

definition short_store :: crawler where
  "short_store = \<lparr>store_name = ''chain'',
     fetch = (\<lambda>u. if u = ''https://www.ebay.com/sch/chain/m.html'' then Response page_a
                  else Response page_end),
     urljoin = (\<lambda>b h. h)\<rparr>"

section \<open>Observations used in the statements\<close>

text \<open>The number of warning-level logger calls in a log.\<close>

definition warnings :: "log_event list \<Rightarrow> nat" where
  "warnings evs = length (filter (\<lambda>ev. fst ev = WARNING) evs)"

text \<open>
  \<open>lacks_url item\<close> is the test \<open>not product_url\<close> of line 85 in the cases where line
  84 does not raise: no link anchor, or an empty \<open>href\<close>.
\<close>

definition lacks_url :: "listing_node \<Rightarrow> bool" where
  "lacks_url item = (link_elem item = None \<or> link_elem item = Some (Anchor (Some [])))"

text \<open>
  \<open>path c u ps ue\<close>: fetching from \<open>u\<close> yields the pages \<open>ps\<close> in turn, each with a
  next-page link that \<open>process_page\<close> resolves to the URL of the following one, the link
  of the last leading to \<open>ue\<close>.
\<close>

fun path :: "crawler \<Rightarrow> string \<Rightarrow> page list \<Rightarrow> string \<Rightarrow> bool" where
  "path c u [] ue = (u = ue)"
| "path c u (p # ps) ue =
     (u \<noteq> [] \<and> fetch c u = Response p \<and>
      (case pagination_next p of
         Some (Anchor (Some h)) \<Rightarrow>
           urljoin c (base_url c) h \<noteq> [] \<and> path c (urljoin c (base_url c) h) ps ue
       | _ \<Rightarrow> False))"

text \<open>\<open>next_of c pg\<close> is \<open>next_url\<close> of lines 137-138 for the pagination link of \<open>pg\<close>.\<close>

definition next_of :: "crawler \<Rightarrow> page \<Rightarrow> string option" where
  "next_of c pg = (case pagination_next pg of None \<Rightarrow> None
                   | Some a \<Rightarrow> map_option (urljoin c (base_url c)) (href a))"

text \<open>\<open>parses p\<close>: no link anchor of the page lacks its \<open>href\<close>.\<close>

definition parses :: "page \<Rightarrow> bool" where
  "parses p = (\<forall>item\<in>set (items p). link_elem item \<noteq> Some (Anchor None))"

section \<open>Price normalisation\<close>







lemma parse_item_price:
  "parse_item item F = Inr (evs, Some r) \<Longrightarrow>
   price r = normalize_price (case price_elem item of Some t \<Rightarrow> strip t | None \<Rightarrow> ''0.00'')"
  by (auto simp: parse_item_def Let_def split: option.splits anchor.splits if_splits)

lemma price_examples:
  "normalize_price (strip ''$1,234.56 to $1,999.00'') = ''1234.56''"
  "normalize_price (strip ''$49.99'') = ''49.99''"
  "normalize_price ''0.00'' = ''0.00''"
  by code_simp+




section \<open>Per-field fallbacks and the condition filter\<close>

lemma parse_item_error:
  "(parse_item item F = Inl e) = (link_elem item = Some (Anchor None) \<and> e = KeyError ''href'')"
  by (auto simp: parse_item_def Let_def split: option.splits anchor.splits if_splits)

lemma parse_item_fields:
  "parse_item item F = Inr (evs, Some r) \<Longrightarrow>
   title r = (case title_elem item of Some t \<Rightarrow> strip t | None \<Rightarrow> ''No title'') \<and>
   condition r = (case condition_elem item of Some t \<Rightarrow> strip t | None \<Rightarrow> ''Unknown'') \<and>
   link_elem item = Some (Anchor (Some (product_url r))) \<and> product_url r \<noteq> [] \<and>
   extract_item_id (product_url r) \<noteq> None"
  by (auto simp: parse_item_def Let_def split: option.splits anchor.splits if_splits)

lemma parse_item_unfiltered:
  "link_elem item = Some (Anchor (Some url)) \<Longrightarrow> url \<noteq> [] \<Longrightarrow> extract_item_id url = Some i \<Longrightarrow>
   \<exists>evs r. parse_item item None = Inr (evs, Some r)"
  by (simp add: parse_item_def Let_def filter_rejects_def)

text \<open>
  C9. \<open>parse_item\<close> raises only for a link anchor without \<open>href\<close>, whatever the
  optional elements are; a node with a link that yields an identifier is parsed to a
  record when no filter is given; and in every record returned a missing title element
  gives \<open>"No title"\<close>, a missing condition element \<open>"Unknown"\<close> and a missing price
  element \<open>"0.00"\<close>.
\<close>

theorem optional_field_defaults:
  "(parse_item item F = Inl e \<longrightarrow> link_elem item = Some (Anchor None))
   \<and> (link_elem item = Some (Anchor (Some url)) \<and> url \<noteq> [] \<and> extract_item_id url = Some i
        \<longrightarrow> (\<exists>evs' r'. parse_item item None = Inr (evs', Some r')))
   \<and> (parse_item item F = Inr (evs, Some r) \<longrightarrow>
        (title_elem item = None \<longrightarrow> title r = ''No title'') \<and>
        (condition_elem item = None \<longrightarrow> condition r = ''Unknown'') \<and>
        (price_elem item = None \<longrightarrow> price r = ''0.00''))"
proof -
  have "price r = ''0.00''" if "parse_item item F = Inr (evs, Some r)" "price_elem item = None"
    using parse_item_price[OF that(1)] that(2) price_examples(3) by simp
  then show ?thesis
    using parse_item_error[of item F e] parse_item_unfiltered[of item url i]
      parse_item_fields[of item F evs r]
    by auto
qed

theorem optional_field_defaults_witness:
  "title \<lparr>title = ''No title'', condition = ''Unknown'', price = ''0.00'',
          product_url = ''https://www.ebay.com/itm/1003''\<rparr> = ''No title''
   \<and> parse_item node_bare (Some ''unknown'') =
       Inr ([(DEBUG, ParsedItem ''No title'' ''Unknown'' ''0.00'')],
            Some \<lparr>title = ''No title'', condition = ''Unknown'', price = ''0.00'',
                  product_url = ''https://www.ebay.com/itm/1003''\<rparr>)
   \<and> (\<exists>evs' r'. parse_item node_bare None = Inr (evs', Some r'))"
proof -
  have parsed: "parse_item node_bare (Some ''unknown'') =
      Inr ([(DEBUG, ParsedItem ''No title'' ''Unknown'' ''0.00'')],
           Some \<lparr>title = ''No title'', condition = ''Unknown'', price = ''0.00'',
                 product_url = ''https://www.ebay.com/itm/1003''\<rparr>)"
    by code_simp
  have bare: "title_elem node_bare = None" "condition_elem node_bare = None"
    "price_elem node_bare = None"
    "link_elem node_bare = Some (Anchor (Some ''https://www.ebay.com/itm/1003''))"
    by (simp_all add: node_bare_def)
  have ident: "extract_item_id ''https://www.ebay.com/itm/1003'' = Some ''1003''"
    by code_simp
  show ?thesis
    using optional_field_defaults [of node_bare "Some ''unknown''" "KeyError ''href''"
        "''https://www.ebay.com/itm/1003''" "''1003''"
        "[(DEBUG, ParsedItem ''No title'' ''Unknown'' ''0.00'')]"
        "\<lparr>title = ''No title'', condition = ''Unknown'', price = ''0.00'',
          product_url = ''https://www.ebay.com/itm/1003''\<rparr>"]
      parsed bare ident
    by simp
qed

text \<open>
  C1, as the source has it. Let \<open>R\<close> be the record that a node yields without a filter.
  With the filter \<open>F\<close> the node yields \<open>R\<close> exactly when \<open>F\<close> is \<open>None\<close>, or the
  empty string, or equal to the condition of \<open>R\<close> after lower-casing both; otherwise the
  node yields \<open>None\<close> and one debug event.
\<close>

theorem filter_correctness:
  assumes "parse_item item None = Inr (evs0, Some R)"
  shows "((parse_item item F = Inr (evs0, Some R)) =
            (F = None \<or> F = Some [] \<or> (\<exists>f. F = Some f \<and> lower (condition R) = lower f)))
         \<and> (parse_item item F = Inr (evs0, Some R) \<or>
            parse_item item F = Inr ([(DEBUG, SkippingItem (condition R) F)], None))"
  using assms
  by (auto simp: parse_item_def Let_def filter_rejects_def
           split: option.splits anchor.splits if_splits)

theorem filter_correctness_witness:
  "parse_item node_used (Some ''USED'') =
     Inr ([(DEBUG, ParsedItem ''Mouse'' ''Used'' ''49.99'')],
          Some \<lparr>title = ''Mouse'', condition = ''Used'', price = ''49.99'',
                product_url = ''https://www.ebay.com/itm/1002''\<rparr>)
   \<and> parse_item node_used (Some ''New'') =
       Inr ([(DEBUG, SkippingItem ''Used'' (Some ''New''))], None)"
proof -
  have unfiltered: "parse_item node_used None =
      Inr ([(DEBUG, ParsedItem ''Mouse'' ''Used'' ''49.99'')],
           Some \<lparr>title = ''Mouse'', condition = ''Used'', price = ''49.99'',
                 product_url = ''https://www.ebay.com/itm/1002''\<rparr>)"
    by code_simp
  have same: "lower ''Used'' = lower ''USED''" and other: "lower ''Used'' \<noteq> lower ''New''"
    by code_simp+
  have kept: "parse_item node_used (Some ''USED'') =
      Inr ([(DEBUG, ParsedItem ''Mouse'' ''Used'' ''49.99'')],
           Some \<lparr>title = ''Mouse'', condition = ''Used'', price = ''49.99'',
                 product_url = ''https://www.ebay.com/itm/1002''\<rparr>)"
    using filter_correctness [OF unfiltered, of "Some ''USED''", THEN conjunct1] same
    by simp
  have not_kept: "parse_item node_used (Some ''New'') \<noteq>
      Inr ([(DEBUG, ParsedItem ''Mouse'' ''Used'' ''49.99'')],
           Some \<lparr>title = ''Mouse'', condition = ''Used'', price = ''49.99'',
                 product_url = ''https://www.ebay.com/itm/1002''\<rparr>)"
    using filter_correctness [OF unfiltered, of "Some ''New''", THEN conjunct1] other
    by simp
  have "parse_item node_used (Some ''New'') =
      Inr ([(DEBUG, SkippingItem ''Used'' (Some ''New''))], None)"
    using filter_correctness [OF unfiltered, of "Some ''New''", THEN conjunct2] not_kept
    by simp
  with kept show ?thesis by (rule conjI)
qed

theorem filter_empty_counterexample:
  "parse_item node_used (Some []) =
     Inr ([(DEBUG, ParsedItem ''Mouse'' ''Used'' ''49.99'')],
          Some \<lparr>title = ''Mouse'', condition = ''Used'', price = ''49.99'',
                product_url = ''https://www.ebay.com/itm/1002''\<rparr>)
   \<and> lower ''Used'' \<noteq> lower []"
  by code_simp

section \<open>Persistence\<close>

lemma fs_write_names:
  "map fst (fs_write n v fs) = (if n \<in> set (map fst fs) then map fst fs else map fst fs @ [n])"
  by (induction fs) force+

lemma map_of_fs_write: "map_of (fs_write n v fs) = (map_of fs)(n \<mapsto> v)"
  by (induction fs) (auto simp: fun_eq_iff)

lemma fs_write_twice: "fs_write n v2 (fs_write n v1 fs) = fs_write n v2 fs"
  by (induction fs) auto

lemma count_list_distinct:
  "distinct xs \<Longrightarrow> count_list xs n = (if n \<in> set xs then 1 else 0)"
  by (induction xs) auto

lemma distinct_fs_write: "distinct (map fst (fs_write n v fs)) = distinct (map fst fs)"
  by (simp add: fs_write_names)

lemma name_in_fs_write: "n \<in> set (map fst (fs_write n v fs))"
  by (simp add: fs_write_names)

lemma files_write_json_file:
  "files (write_json_file i d w) = fs_write (json_name i) (JsonDoc d) (files w)"
  by (simp add: write_json_file_def logger_def)

text \<open>
  C8. In a directory (its file names distinct), writing item \<open>i\<close> with content \<open>d1\<close>
  and then with \<open>d2\<close> leaves one file of that name, holding \<open>d2\<close>; the directory is the
  one a single write of \<open>d2\<close> gives, it has the file names the first write left, and every
  other file is as it was.
\<close>

theorem idempotent_persistence:
  assumes "distinct (map fst (files w))"
  shows "map_of (files (write_json_file i d2 (write_json_file i d1 w))) (json_name i)
           = Some (JsonDoc d2)
         \<and> count_list (map fst (files (write_json_file i d2 (write_json_file i d1 w))))
             (json_name i) = 1
         \<and> distinct (map fst (files (write_json_file i d2 (write_json_file i d1 w))))
         \<and> map fst (files (write_json_file i d2 (write_json_file i d1 w)))
             = map fst (files (write_json_file i d1 w))
         \<and> files (write_json_file i d2 (write_json_file i d1 w)) = files (write_json_file i d2 w)
         \<and> (\<forall>n. n \<noteq> json_name i \<longrightarrow>
               map_of (files (write_json_file i d2 (write_json_file i d1 w))) n
                 = map_of (files w) n)"
proof -
  let ?fs = "fs_write (json_name i) (JsonDoc d2) (files w)"
  have twice: "files (write_json_file i d2 (write_json_file i d1 w)) = ?fs"
    by (simp add: files_write_json_file fs_write_twice)
  have content: "map_of ?fs (json_name i) = Some (JsonDoc d2)"
    by (simp add: map_of_fs_write)
  have d: "distinct (map fst ?fs)"
    using assms by (simp only: distinct_fs_write)
  have one: "count_list (map fst ?fs) (json_name i) = 1"
    using d name_in_fs_write[of "json_name i" "JsonDoc d2" "files w"]
    by (simp only: count_list_distinct if_True)
  have names: "map fst ?fs = map fst (files (write_json_file i d1 w))"
    by (simp add: files_write_json_file fs_write_names)
  have single: "?fs = files (write_json_file i d2 w)"
    by (simp add: files_write_json_file)
  have others: "\<forall>n. n \<noteq> json_name i \<longrightarrow> map_of ?fs n = map_of (files w) n"
    by (simp add: map_of_fs_write)
  show ?thesis
    unfolding twice using content one d names single others by blast
qed

theorem idempotent_persistence_witness:
  "files (write_json_file ''1002''
            \<lparr>title = ''B'', condition = ''Used'', price = ''2.00'', product_url = ''u''\<rparr>
            (write_json_file ''1002''
               \<lparr>title = ''A'', condition = ''New'', price = ''3.00'', product_url = ''u''\<rparr>
               world_old))
     = [(''notes.txt'', Raw ''x''),
        (''1002.json'', JsonDoc \<lparr>title = ''B'', condition = ''Used'', price = ''2.00'',
           product_url = ''u''\<rparr>)]
   \<and> count_list (map fst (files (write_json_file ''1002''
            \<lparr>title = ''B'', condition = ''Used'', price = ''2.00'', product_url = ''u''\<rparr>
            (write_json_file ''1002''
               \<lparr>title = ''A'', condition = ''New'', price = ''3.00'', product_url = ''u''\<rparr>
               world_old)))) (json_name ''1002'') = 1"
proof -
  have d: "distinct (map fst (files world_old))"
    by (simp add: world_old_def)
  have once: "files (write_json_file ''1002''
            \<lparr>title = ''B'', condition = ''Used'', price = ''2.00'', product_url = ''u''\<rparr>
            world_old)
     = [(''notes.txt'', Raw ''x''),
        (''1002.json'', JsonDoc \<lparr>title = ''B'', condition = ''Used'', price = ''2.00'',
           product_url = ''u''\<rparr>)]"
    by (simp add: files_write_json_file world_old_def json_name_def)
  note both = idempotent_persistence [OF d, of "''1002''"
        "\<lparr>title = ''B'', condition = ''Used'', price = ''2.00'', product_url = ''u''\<rparr>"
        "\<lparr>title = ''A'', condition = ''New'', price = ''3.00'', product_url = ''u''\<rparr>"]
  from both have one: "count_list (map fst (files (write_json_file ''1002''
            \<lparr>title = ''B'', condition = ''Used'', price = ''2.00'', product_url = ''u''\<rparr>
            (write_json_file ''1002''
               \<lparr>title = ''A'', condition = ''New'', price = ''3.00'', product_url = ''u''\<rparr>
               world_old)))) (json_name ''1002'') = 1"
    by (rule conjunct2 [THEN conjunct1])
  from both have "files (write_json_file ''1002''
            \<lparr>title = ''B'', condition = ''Used'', price = ''2.00'', product_url = ''u''\<rparr>
            (write_json_file ''1002''
               \<lparr>title = ''A'', condition = ''New'', price = ''3.00'', product_url = ''u''\<rparr>
               world_old))
      = files (write_json_file ''1002''
            \<lparr>title = ''B'', condition = ''Used'', price = ''2.00'', product_url = ''u''\<rparr>
            world_old)"
    by (rule conjunct2 [THEN conjunct2, THEN conjunct2, THEN conjunct2, THEN conjunct1])
  with once have "files (write_json_file ''1002''
            \<lparr>title = ''B'', condition = ''Used'', price = ''2.00'', product_url = ''u''\<rparr>
            (write_json_file ''1002''
               \<lparr>title = ''A'', condition = ''New'', price = ''3.00'', product_url = ''u''\<rparr>
               world_old))
     = [(''notes.txt'', Raw ''x''),
        (''1002.json'', JsonDoc \<lparr>title = ''B'', condition = ''Used'', price = ''2.00'',
           product_url = ''u''\<rparr>)]"
    by (simp only:)
  then show ?thesis using one by (rule conjI)
qed

section \<open>Identifier extraction\<close>

lemma takeWhile_run:
  "\<forall>c\<in>set ds. P c \<Longrightarrow> rest = [] \<or> \<not> P (hd rest) \<Longrightarrow> takeWhile P (ds @ rest) = ds"
  by (cases rest) (auto simp: takeWhile_append2)

lemma match_itm_marker:
  assumes "ds \<noteq> []" "\<forall>c\<in>set ds. is_digit c" "rest = [] \<or> \<not> is_digit (hd rest)"
  shows "match_itm (''/itm/'' @ ds @ rest) = Some ds"
proof -
  have tw: "takeWhile is_digit (ds @ rest) = ds"
    using assms(2,3) by (rule takeWhile_run)
  have dr: "drop 5 (''/itm/'' @ ds @ rest) = ds @ rest"
    by simp
  have st: "starts_with (''/itm/'' @ ds @ rest) ''/itm/''"
    by (simp add: starts_with_def)
  show ?thesis
    unfolding match_itm_def Let_def using assms(1) by (simp only: st dr tw if_True if_False)
qed

lemma match_itm_digit:
  "is_digit d \<Longrightarrow> match_itm (''/itm/'' @ d # rest) \<noteq> None"
  by (simp add: match_itm_def starts_with_def)

lemma match_itm_Some:
  assumes "match_itm s = Some ds"
  shows "\<exists>rest. s = ''/itm/'' @ ds @ rest \<and> ds \<noteq> [] \<and> (\<forall>c\<in>set ds. is_digit c)
           \<and> (rest = [] \<or> \<not> is_digit (hd rest))"
proof -
  from assms have st: "starts_with s ''/itm/''" and ds: "ds = takeWhile is_digit (drop 5 s)"
    and ne: "ds \<noteq> []"
    by (auto simp: match_itm_def Let_def split: if_splits)
  from st have "s = ''/itm/'' @ drop 5 s"
    by (metis append_take_drop_id length_Cons list.size(3) starts_with_def numeral_eq_Suc One_nat_def Suc_eq_plus1 pred_numeral_simps(3) pred_numeral_simps(2) numeral_One BitM.simps)
  then have "s = ''/itm/'' @ ds @ dropWhile is_digit (drop 5 s)"
    using ds by simp
  moreover have "\<forall>c\<in>set ds. is_digit c"
    using ds by (auto dest: set_takeWhileD)
  moreover have "dropWhile is_digit (drop 5 s) = [] \<or> \<not> is_digit (hd (dropWhile is_digit (drop 5 s)))"
    using hd_dropWhile by blast
  ultimately show ?thesis using ne by blast
qed

lemma match_itm_extend:
  assumes "match_itm p = None" "p \<noteq> []"
  shows "match_itm (p @ ''/itm/'' @ x) = None"
proof (cases p)
  case Nil with assms show ?thesis by simp
next
  case A: (Cons x1 p1)
  show ?thesis
  proof (cases p1)
    case Nil with A show ?thesis by (simp add: match_itm_def starts_with_def)
  next
    case B: (Cons x2 p2)
    show ?thesis
    proof (cases p2)
      case Nil with A B show ?thesis by (simp add: match_itm_def starts_with_def)
    next
      case C: (Cons x3 p3)
      show ?thesis
      proof (cases p3)
        case Nil with A B C show ?thesis by (simp add: match_itm_def starts_with_def)
      next
        case D: (Cons x4 p4)
        show ?thesis
        proof (cases p4)
          case Nil with A B C D show ?thesis
            by (simp add: match_itm_def starts_with_def is_digit_def)
        next
          case E: (Cons x5 p5)
          show ?thesis
          proof (cases p5)
            case Nil with A B C D E show ?thesis
              by (simp add: match_itm_def starts_with_def is_digit_def)
          next
            case (Cons x6 p6) with A B C D E assms(1) show ?thesis
              by (auto simp: match_itm_def starts_with_def Let_def split: if_splits)
          qed
        qed
      qed
    qed
  qed
qed

lemma extract_item_id_leftmost:
  assumes "extract_item_id pre = None" "ds \<noteq> []" "\<forall>c\<in>set ds. is_digit c"
    "rest = [] \<or> \<not> is_digit (hd rest)"
  shows "extract_item_id (pre @ ''/itm/'' @ ds @ rest) = Some ds"
  using assms(1)
proof (induction pre)
  case Nil
  have "match_itm (CHR ''/'' # ''itm/'' @ ds @ rest) = Some ds"
    using match_itm_marker[OF assms(2-4)] by simp
  then show ?case by simp
next
  case (Cons c pre)
  from Cons.prems have m: "match_itm (c # pre) = None" and e: "extract_item_id pre = None"
    by (auto split: option.splits)
  from match_itm_extend[OF m, of "ds @ rest"] have "match_itm (c # pre @ ''/itm/'' @ ds @ rest) = None"
    by simp
  with Cons.IH[OF e] show ?case by simp
qed

lemma extract_item_id_found:
  "is_digit d \<Longrightarrow> extract_item_id (pre @ ''/itm/'' @ d # rest) \<noteq> None"
proof (induction pre)
  case Nil
  from match_itm_digit[OF Nil, of rest] show ?case by (auto split: option.splits)
next
  case (Cons c pre)
  then show ?case by (auto split: option.splits)
qed

lemma extract_item_id_Some:
  "extract_item_id url = Some ds \<Longrightarrow>
   \<exists>pre rest. url = pre @ ''/itm/'' @ ds @ rest \<and> ds \<noteq> [] \<and> (\<forall>c\<in>set ds. is_digit c)
      \<and> (rest = [] \<or> \<not> is_digit (hd rest)) \<and> extract_item_id pre = None"
proof (induction url)
  case Nil then show ?case by simp
next
  case (Cons c url)
  show ?case
  proof (cases "match_itm (c # url)")
    case None
    with Cons.prems have "extract_item_id url = Some ds" by simp
    from Cons.IH[OF this] obtain pre rest where
      p: "url = pre @ ''/itm/'' @ ds @ rest" "ds \<noteq> []" "\<forall>c\<in>set ds. is_digit c"
         "rest = [] \<or> \<not> is_digit (hd rest)" "extract_item_id pre = None" by blast
    have "extract_item_id (c # pre) = None"
    proof (cases "match_itm (c # pre)")
      case None with p(5) show ?thesis by simp
    next
      case (Some y)
      from match_itm_Some[OF this] obtain r where r: "c # pre = ''/itm/'' @ y @ r" "y \<noteq> []" "\<forall>c\<in>set y. is_digit c" by blast
      then obtain d y' where "y = d # y'" "is_digit d" by (cases y) auto
      with r have "c # url = [] @ ''/itm/'' @ d # (y' @ r @ ''/itm/'' @ ds @ rest)"
        using p(1) by simp
      then have "match_itm (c # url) \<noteq> None"
        using match_itm_digit[OF \<open>is_digit d\<close>] by (metis append_Nil)
      with None show ?thesis by simp
    qed
    moreover have "c # url = (c # pre) @ ''/itm/'' @ ds @ rest" using p(1) by simp
    ultimately show ?thesis using p(2-4) by blast
  next
    case (Some y)
    with Cons.prems have "y = ds" by simp
    with match_itm_Some[OF Some] obtain rest where
      "c # url = [] @ ''/itm/'' @ ds @ rest" "ds \<noteq> []" "\<forall>c\<in>set ds. is_digit c"
      "rest = [] \<or> \<not> is_digit (hd rest)" by auto
    moreover have "extract_item_id [] = None" by simp
    ultimately show ?thesis by blast
  qed
qed

lemma extract_item_id_None_iff:
  "(extract_item_id url = None) = (\<forall>pre d rest. url = pre @ ''/itm/'' @ d # rest \<longrightarrow> \<not> is_digit d)"
proof
  assume "extract_item_id url = None"
  then show "\<forall>pre d rest. url = pre @ ''/itm/'' @ d # rest \<longrightarrow> \<not> is_digit d"
    using extract_item_id_found by metis
next
  assume no: "\<forall>pre d rest. url = pre @ ''/itm/'' @ d # rest \<longrightarrow> \<not> is_digit d"
  show "extract_item_id url = None"
  proof (rule ccontr)
    assume "extract_item_id url \<noteq> None"
    then obtain ds where "extract_item_id url = Some ds" by auto
    from extract_item_id_Some[OF this] obtain pre rest where
      p: "url = pre @ ''/itm/'' @ ds @ rest" "ds \<noteq> []" "\<forall>c\<in>set ds. is_digit c" by blast
    then obtain d y' where "ds = d # y'" "is_digit d" by (cases ds) auto
    with p(1) no show False by auto
  qed
qed

section \<open>Pages: pending writes, files and log\<close>

lemma parse_item_no_id:
  "link_elem item = Some (Anchor (Some url)) \<Longrightarrow> extract_item_id url = None \<Longrightarrow>
   \<exists>evs. parse_item item F = Inr (evs, None)"
  by (simp add: parse_item_def Let_def)

lemma collect_tasks_ids:
  "collect_tasks its F = Inr (evs, tasks) \<Longrightarrow> (i, d) \<in> set tasks \<Longrightarrow>
   extract_item_id (product_url d) = Some i \<and> (\<exists>item\<in>set its. \<exists>evs'. parse_item item F = Inr (evs', Some d))"
proof (induction its arbitrary: evs tasks)
  case Nil then show ?case by simp
next
  case (Cons item its)
  then show ?case
    by (fastforce split: sum.splits option.splits prod.splits)
qed

lemma set_fs_write: "set (fs_write n v fs) \<subseteq> insert (n, v) (set fs)"
  by (induction fs) (auto split: if_splits)

lemma files_logger [simp]: "files (logger lvl m w) = files w"
  by (simp add: logger_def)

lemma gather_files:
  "(n, x) \<in> set (files (gather tasks w)) \<Longrightarrow>
   (n, x) \<in> set (files w) \<or> (\<exists>(i, d)\<in>set tasks. n = json_name i \<and> x = JsonDoc d)"
proof (induction tasks arbitrary: w)
  case Nil then show ?case by simp
next
  case (Cons t tasks)
  obtain i d where t: "t = (i, d)" by (cases t)
  from Cons.prems t have "(n, x) \<in> set (files (gather tasks (write_json_file i d w)))" by simp
  from Cons.IH[OF this] show ?case
    using set_fs_write[of "json_name i" "JsonDoc d" "files w"] t
    by (auto simp: files_write_json_file)
qed

lemma process_page_files:
  assumes "process_page c u F w = Inr (nu, w')" "(n, x) \<in> set (files w')"
  shows "(n, x) \<in> set (files w) \<or>
         (\<exists>pg evs tasks. fetch c u = Response pg \<and> collect_tasks (items pg) F = Inr (evs, tasks)
            \<and> (\<exists>(i, d)\<in>set tasks. n = json_name i \<and> x = JsonDoc d))"
  using assms
  by (auto simp: process_page_def Let_def split: fetch_result.splits sum.splits prod.splits
        option.splits anchor.splits if_splits dest!: gather_files)

lemma process_page_persisted:
  assumes "process_page c u F w = Inr (nu, w')" "(n, JsonDoc d) \<in> set (files w')"
  shows "(n, JsonDoc d) \<in> set (files w) \<or>
         (\<exists>i. extract_item_id (product_url d) = Some i \<and> n = json_name i)"
  using process_page_files[OF assms] collect_tasks_ids by fastforce

lemma parse_item_lacks_url: "lacks_url item \<Longrightarrow> parse_item item F = Inr ([], None)"
  by (auto simp: lacks_url_def parse_item_def Let_def)

lemma parse_item_Some_events:
  "parse_item item F = Inr (evs, Some r) \<Longrightarrow> evs = [(DEBUG, ParsedItem (title r) (condition r) (price r))]"
  by (auto simp: parse_item_def Let_def split: option.splits anchor.splits if_splits)

lemma parse_item_Some_url: "parse_item item F = Inr (evs, Some r) \<Longrightarrow> \<not> lacks_url item"
  by (auto simp: lacks_url_def parse_item_def Let_def split: option.splits anchor.splits if_splits)

lemma warnings_append [simp]: "warnings (xs @ ys) = warnings xs + warnings ys"
  by (simp add: warnings_def)

lemma collect_tasks_clean:
  assumes "\<forall>item\<in>set its. lacks_url item \<or> (\<exists>evs r. parse_item item F = Inr (evs, Some r))"
  shows "\<exists>evs tasks. collect_tasks its F = Inr (evs, tasks)
           \<and> length tasks = length (filter (\<lambda>item. \<not> lacks_url item) its)
           \<and> warnings evs = 0"
  using assms
proof (induction its)
  case Nil then show ?case by (simp add: warnings_def)
next
  case (Cons item its)
  then obtain evs tasks where IH: "collect_tasks its F = Inr (evs, tasks)"
     "length tasks = length (filter (\<lambda>item. \<not> lacks_url item) its)" "warnings evs = 0"
    by auto
  show ?case
  proof (cases "lacks_url item")
    case True
    with IH show ?thesis by (simp add: parse_item_lacks_url warnings_def)
  next
    case False
    with Cons.prems obtain evs1 r where r: "parse_item item F = Inr (evs1, Some r)" by auto
    from parse_item_fields[OF r] obtain i where "extract_item_id (product_url r) = Some i" by auto
    with r IH False parse_item_Some_events[OF r] show ?thesis by (simp add: warnings_def)
  qed
qed

lemma ends_with_json_name: "ends_with (json_name i) ''.json''"
  by (simp add: ends_with_def json_name_def)

lemma json_count_fs_write:
  "json_count (fs_write (json_name i) v fs) =
     (if json_name i \<in> set (map fst fs) then json_count fs else json_count fs + 1)"
  by (simp add: json_count_def fs_write_names ends_with_json_name)

lemma json_name_inj: "json_name i = json_name j \<Longrightarrow> i = j"
  by (simp add: json_name_def)

lemma gather_new_files:
  "distinct (map fst tasks) \<Longrightarrow> \<forall>i\<in>set (map fst tasks). json_name i \<notin> set (map fst (files w)) \<Longrightarrow>
   json_count (files (gather tasks w)) = json_count (files w) + length tasks"
proof (induction tasks arbitrary: w)
  case Nil then show ?case by simp
next
  case (Cons t tasks)
  obtain i d where t: "t = (i, d)" by (cases t)
  have "\<forall>j\<in>set (map fst tasks). json_name j \<notin> set (map fst (files (write_json_file i d w)))"
    using Cons.prems t by (auto simp: files_write_json_file fs_write_names dest: json_name_inj)
  moreover have "distinct (map fst tasks)" using Cons.prems by simp
  ultimately have "json_count (files (gather tasks (write_json_file i d w)))
      = json_count (files (write_json_file i d w)) + length tasks"
    by (rule Cons.IH[rotated])
  then show ?case using Cons.prems t
    by (simp add: files_write_json_file json_count_fs_write)
qed

lemma gather_mono: "json_count (files w) \<le> json_count (files (gather tasks w))"
proof (induction tasks arbitrary: w)
  case Nil then show ?case by simp
next
  case (Cons t tasks)
  obtain i d where t: "t = (i, d)" by (cases t)
  have "json_count (files w) \<le> json_count (files (write_json_file i d w))"
    by (simp add: files_write_json_file json_count_fs_write)
  also have "\<dots> \<le> json_count (files (gather tasks (write_json_file i d w)))" by (rule Cons.IH)
  finally show ?case using t by simp
qed

lemma log_gather: "warnings (log (gather tasks w)) = warnings (log w)"
  by (induction tasks arbitrary: w) (auto simp: write_json_file_def logger_def warnings_def)

lemma requests_gather [simp]: "requests (gather tasks w) = requests w"
  by (induction tasks arbitrary: w) (auto simp: write_json_file_def logger_def)

lemma files_gather:
  "files (gather tasks w) =
     foldl (\<lambda>fs t. fs_write (json_name (fst t)) (JsonDoc (snd t)) fs) (files w) tasks"
  by (induction tasks arbitrary: w) (auto simp: files_write_json_file)

lemma files_gather_cong: "files w1 = files w2 \<Longrightarrow> files (gather tasks w1) = files (gather tasks w2)"
  by (simp add: files_gather)

lemma process_page_response:
  assumes "fetch c u = Response pg" "collect_tasks (items pg) F = Inr (evs, tasks)"
    "pagination_next pg \<noteq> Some (Anchor None)"
  shows "\<exists>w'. process_page c u F w = Inr (next_of c pg, w')
           \<and> files w' = files (gather tasks w) \<and> requests w' = requests w @ [u]
           \<and> warnings (log w') = warnings (log w) + warnings evs"
proof (cases "tasks = []")
  case True
  with assms show ?thesis
    by (cases "pagination_next pg")
       (auto simp: process_page_def Let_def logger_def warnings_def next_of_def
             split: anchor.splits option.splits)
next
  case False
  from False assms show ?thesis
    by (cases "pagination_next pg")
       (auto simp: process_page_def Let_def logger_def log_gather next_of_def files_gather
             split: anchor.splits option.splits, auto simp: warnings_def)
qed

section \<open>Identifier determinism\<close>

text \<open>
  C2. A URL that holds the marker \<open>/itm/\<close> followed by a non-empty run of digits
  \<open>ds\<close> that ends where the digits end, with no marker-and-digit before it, yields
  \<open>ds\<close>; whatever \<open>extract_item_id\<close> returns is such a run of the URL; a URL yields
  none exactly when it has no marker followed by a digit. A node whose link yields none
  is parsed to \<open>None\<close>, and every record file present after \<open>process_page\<close> was there
  before or is named by the identifier of its own \<open>product_url\<close>.
\<close>

theorem identifier_determinism:
  "(url = pre @ ''/itm/'' @ ds @ rest \<and> ds \<noteq> [] \<and> (\<forall>c\<in>set ds. is_digit c)
      \<and> (rest = [] \<or> \<not> is_digit (hd rest))
      \<and> (\<forall>p d r. pre = p @ ''/itm/'' @ d # r \<longrightarrow> \<not> is_digit d)
     \<longrightarrow> extract_item_id url = Some ds)
   \<and> (extract_item_id url = Some ident \<longrightarrow>
        (\<exists>p r. url = p @ ''/itm/'' @ ident @ r \<and> ident \<noteq> [] \<and> (\<forall>c\<in>set ident. is_digit c)
           \<and> (r = [] \<or> \<not> is_digit (hd r))))
   \<and> ((extract_item_id url = None) =
        (\<forall>p d r. url = p @ ''/itm/'' @ d # r \<longrightarrow> \<not> is_digit d))
   \<and> (extract_item_id url = None \<and> link_elem item = Some (Anchor (Some url))
        \<longrightarrow> (\<exists>evs. parse_item item F = Inr (evs, None)))
   \<and> (process_page c u F w = Inr (nu, w') \<and> (n, JsonDoc rec) \<in> set (files w')
        \<longrightarrow> (n, JsonDoc rec) \<in> set (files w)
            \<or> (\<exists>i. extract_item_id (product_url rec) = Some i \<and> n = json_name i))"
proof -
  have "extract_item_id url = Some ds"
    if "url = pre @ ''/itm/'' @ ds @ rest" "ds \<noteq> []" "\<forall>c\<in>set ds. is_digit c"
       "rest = [] \<or> \<not> is_digit (hd rest)" "\<forall>p d r. pre = p @ ''/itm/'' @ d # r \<longrightarrow> \<not> is_digit d"
  proof -
    from that(5) have "extract_item_id pre = None"
      by (simp only: extract_item_id_None_iff)
    from extract_item_id_leftmost[OF this that(2-4)] that(1) show ?thesis by simp
  qed
  moreover have "\<exists>p r. url = p @ ''/itm/'' @ ident @ r \<and> ident \<noteq> [] \<and> (\<forall>c\<in>set ident. is_digit c)
           \<and> (r = [] \<or> \<not> is_digit (hd r))" if "extract_item_id url = Some ident"
    using extract_item_id_Some[OF that] by blast
  moreover note extract_item_id_None_iff[of url]
  moreover have "\<exists>evs. parse_item item F = Inr (evs, None)"
    if "extract_item_id url = None" "link_elem item = Some (Anchor (Some url))"
    using parse_item_no_id[OF that(2,1)] .
  moreover have "(n, JsonDoc rec) \<in> set (files w)
            \<or> (\<exists>i. extract_item_id (product_url rec) = Some i \<and> n = json_name i)"
    if "process_page c u F w = Inr (nu, w')" "(n, JsonDoc rec) \<in> set (files w')"
    using process_page_persisted[OF that] .
  ultimately show ?thesis by blast
qed

theorem identifier_determinism_witness:
  "extract_item_id ''https://www.ebay.com/itm/1001?hash=a'' = Some ''1001''
   \<and> extract_item_id ''https://www.ebay.com/p/55'' = None
   \<and> (\<exists>evs. parse_item node_noid None = Inr (evs, None))"
proof -
  note t = identifier_determinism [of "''https://www.ebay.com/itm/1001?hash=a''"
      "''https://www.ebay.com''" "''1001''" "''?hash=a''" "''1001''" node_noid None
      shop5 "''https://www.ebay.com/sch/shop/m.html''" world0 None world0 "''x''" undefined]
  have none: "extract_item_id ''https://www.ebay.com/p/55'' = None" by code_simp
  have "extract_item_id ''https://www.ebay.com'' = None" by code_simp
  then have left: "\<forall>p d r. ''https://www.ebay.com'' = p @ ''/itm/'' @ d # r \<longrightarrow> \<not> is_digit d"
    by (simp only: extract_item_id_None_iff)
  have digits: "\<forall>c\<in>set ''1001''. is_digit c" by (simp add: is_digit_def)
  have stop: "''?hash=a'' = [] \<or> \<not> is_digit (hd ''?hash=a'')" by (simp add: is_digit_def)
  have shape: "''https://www.ebay.com/itm/1001?hash=a'' = ''https://www.ebay.com'' @ ''/itm/'' @ ''1001'' @ ''?hash=a''"
    by simp
  have a: "extract_item_id ''https://www.ebay.com/itm/1001?hash=a'' = Some ''1001''"
    using t[THEN conjunct1] shape digits stop left by blast
  have link: "link_elem node_noid = Some (Anchor (Some ''https://www.ebay.com/p/55''))"
    by (simp add: node_noid_def)
  note t2 = identifier_determinism [of "''https://www.ebay.com/p/55''"
      "[]" "[]" "[]" "[]" node_noid None
      shop5 "''https://www.ebay.com/sch/shop/m.html''" world0 None world0 "''x''" undefined]
  have "\<exists>evs. parse_item node_noid None = Inr (evs, None)"
    using t2[THEN conjunct2, THEN conjunct2, THEN conjunct2, THEN conjunct1] none link by blast
  with a none show ?thesis by blast
qed

section \<open>Listings without a product URL\<close>

text \<open>
  C6, as the source has it. A node without a link anchor, or with an empty \<open>href\<close>, is
  answered with \<open>None\<close> and no logger call at all. On a page whose nodes either lack a
  URL or are parsed to a record, \<open>process_page\<close> queues one write per node that has a
  URL, performs exactly these writes, and logs no warning; when the queued identifiers
  are distinct and new to the directory, the number of record files grows by the number
  of those nodes.
\<close>

theorem missing_url_discarded:
  "(lacks_url item \<longrightarrow> parse_item item F = Inr ([], None))
   \<and> (fetch c u = Response pg \<and> pagination_next pg \<noteq> Some (Anchor None)
       \<and> (\<forall>it\<in>set (items pg). lacks_url it \<or> (\<exists>evs r. parse_item it F = Inr (evs, Some r)))
      \<longrightarrow> (\<exists>evs tasks nu w'.
             collect_tasks (items pg) F = Inr (evs, tasks)
             \<and> process_page c u F w = Inr (nu, w')
             \<and> length tasks = length (filter (\<lambda>it. \<not> lacks_url it) (items pg))
             \<and> files w' = files (gather tasks w)
             \<and> warnings (log w') = warnings (log w)
             \<and> (distinct (map fst tasks)
                  \<and> (\<forall>i\<in>set (map fst tasks). json_name i \<notin> set (map fst (files w)))
                 \<longrightarrow> json_count (files w') = json_count (files w) + length tasks)))"
proof (intro conjI impI)
  assume "lacks_url item" then show "parse_item item F = Inr ([], None)"
    by (rule parse_item_lacks_url)
next
  assume A: "fetch c u = Response pg \<and> pagination_next pg \<noteq> Some (Anchor None)
       \<and> (\<forall>it\<in>set (items pg). lacks_url it \<or> (\<exists>evs r. parse_item it F = Inr (evs, Some r)))"
  then have "\<forall>it\<in>set (items pg). lacks_url it \<or> (\<exists>evs r. parse_item it F = Inr (evs, Some r))"
    by blast
  from collect_tasks_clean[OF this] obtain evs tasks where
    ct: "collect_tasks (items pg) F = Inr (evs, tasks)"
    and len: "length tasks = length (filter (\<lambda>it. \<not> lacks_url it) (items pg))"
    and wz: "warnings evs = 0" by blast
  from A have "fetch c u = Response pg" "pagination_next pg \<noteq> Some (Anchor None)" by blast+
  from process_page_response[OF this(1) ct this(2), of w] wz
  obtain nu w' where pp: "process_page c u F w = Inr (nu, w')"
    and fw: "files w' = files (gather tasks w)"
    and lw: "warnings (log w') = warnings (log w)"
    by auto
  have "json_count (files w') = json_count (files w) + length tasks"
    if "distinct (map fst tasks) \<and> (\<forall>i\<in>set (map fst tasks). json_name i \<notin> set (map fst (files w)))"
    using gather_new_files[of tasks w] that fw by simp
  with ct len wz pp fw lw
  show "\<exists>evs tasks nu w'.
             collect_tasks (items pg) F = Inr (evs, tasks)
             \<and> process_page c u F w = Inr (nu, w')
             \<and> length tasks = length (filter (\<lambda>it. \<not> lacks_url it) (items pg))
             \<and> files w' = files (gather tasks w)
             \<and> warnings (log w') = warnings (log w)
             \<and> (distinct (map fst tasks)
                  \<and> (\<forall>i\<in>set (map fst tasks). json_name i \<notin> set (map fst (files w)))
                 \<longrightarrow> json_count (files w') = json_count (files w) + length tasks)"
    by auto
qed

theorem missing_url_discarded_witness:
  "parse_item node_nolink None = Inr ([], None)
   \<and> (\<exists>evs tasks nu w'.
         collect_tasks (items page5) None = Inr (evs, tasks)
         \<and> process_page shop5 ''https://www.ebay.com/sch/shop/m.html'' None world0 = Inr (nu, w')
         \<and> length tasks = 3
         \<and> warnings (log w') = 0)"
proof -
  have lack: "lacks_url node_nolink" "lacks_url node_emptyhref"
    by (simp_all add: lacks_url_def node_nolink_def node_emptyhref_def)
  have valid: "\<exists>evs r. parse_item node_new None = Inr (evs, Some r)"
    "\<exists>evs r. parse_item node_used None = Inr (evs, Some r)"
    "\<exists>evs r. parse_item node_bare None = Inr (evs, Some r)"
    by (simp_all add: parse_item_def Let_def filter_rejects_def node_new_def node_used_def
          node_bare_def match_itm_def starts_with_def is_digit_def)
  have served: "fetch shop5 ''https://www.ebay.com/sch/shop/m.html'' = Response page5"
    by (simp add: shop5_def)
  have last_page: "pagination_next page5 \<noteq> Some (Anchor None)"
    by (simp add: page5_def)
  have nodes: "\<forall>it\<in>set (items page5).
      lacks_url it \<or> (\<exists>evs r. parse_item it None = Inr (evs, Some r))"
    using lack valid by (simp add: page5_def)
  have three: "length (filter (\<lambda>it. \<not> lacks_url it) (items page5)) = 3"
    by code_simp
  have quiet: "warnings (log world0) = 0"
    by (simp add: world0_def warnings_def)
  note t = missing_url_discarded [of node_nolink None shop5
      "''https://www.ebay.com/sch/shop/m.html''" page5 world0]
  from t lack(1) have "parse_item node_nolink None = Inr ([], None)"
    by blast
  moreover from t served last_page nodes have "\<exists>evs tasks nu w'.
         collect_tasks (items page5) None = Inr (evs, tasks)
         \<and> process_page shop5 ''https://www.ebay.com/sch/shop/m.html'' None world0 = Inr (nu, w')
         \<and> length tasks = length (filter (\<lambda>it. \<not> lacks_url it) (items page5))
         \<and> warnings (log w') = warnings (log world0)"
    by blast
  ultimately show ?thesis
    by (simp only: three quiet)
qed

theorem missing_url_warnings_counterexample:
  "length (items page5) = 5 \<and> length (filter lacks_url (items page5)) = 2
   \<and> map_sum id (json_count \<circ> files \<circ> snd)
       (process_page shop5 ''https://www.ebay.com/sch/shop/m.html'' None world0) = Inr 3
   \<and> map_sum id (warnings \<circ> log \<circ> snd)
       (process_page shop5 ''https://www.ebay.com/sch/shop/m.html'' None world0) = Inr 0"
  by code_simp

section \<open>The crawl loop\<close>

lemma collect_tasks_total:
  "\<forall>item\<in>set its. link_elem item \<noteq> Some (Anchor None) \<Longrightarrow>
   \<exists>evs tasks. collect_tasks its F = Inr (evs, tasks)"
proof (induction its)
  case Nil then show ?case by simp
next
  case (Cons item its)
  then obtain evs tasks where "collect_tasks its F = Inr (evs, tasks)" by auto
  moreover from Cons.prems have "\<And>e. parse_item item F \<noteq> Inl e"
    by (simp add: parse_item_error)
  then obtain evs1 r where "parse_item item F = Inr (evs1, r)"
    by (cases "parse_item item F") auto
  ultimately show ?case by simp
qed

lemma process_page_parses:
  assumes "fetch c u = Response pg" "parses pg" "pagination_next pg \<noteq> Some (Anchor None)"
  shows "\<exists>w'. process_page c u F w = Inr (next_of c pg, w')
           \<and> requests w' = requests w @ [u]
           \<and> json_count (files w) \<le> json_count (files w')"
proof -
  from assms(2) obtain evs tasks where ct: "collect_tasks (items pg) F = Inr (evs, tasks)"
    using collect_tasks_total[of "items pg" F] by (auto simp: parses_def)
  from process_page_response[OF assms(1) ct assms(3), of w] gather_mono[of w tasks]
  show ?thesis by auto
qed

lemma process_page_failed:
  "fetch c u = RequestException e \<Longrightarrow>
   process_page c u F w =
     Inr (None, w\<lparr>log := log w @ [(INFO, ProcessingPage u), (ERROR, FailedToFetch u e)],
                  requests := requests w @ [u]\<rparr>)"
  by (simp add: process_page_def Let_def logger_def)

lemma process_page_mono:
  assumes "process_page c u F w = Inr (nu, w')"
  shows "json_count (files w) \<le> json_count (files w')"
proof (cases "fetch c u")
  case (RequestException e)
  from process_page_failed[OF this, of F w] assms show ?thesis by auto
next
  case (Response pg)
  from assms Response obtain evs tasks where ct: "collect_tasks (items pg) F = Inr (evs, tasks)"
    by (auto simp: process_page_def Let_def split: sum.splits)
  from assms Response ct have "pagination_next pg \<noteq> Some (Anchor None)"
    by (auto simp: process_page_def Let_def split: sum.splits)
  from process_page_response[OF Response ct this, of w] assms gather_mono[of w tasks]
  show ?thesis by auto
qed

lemma crawl_iter_counts:
  assumes "crawl_iter c F u pc ic w = Inr (nu, pc', ic', w')"
  shows "pc' = pc + 1 \<and> ic' = json_count (files w')
         \<and> last (log w') = (INFO, ExtractedNewItems (int (json_count (files w')) - int ic) (pc + 1))
         \<and> json_count (files w) \<le> json_count (files w')"
proof -
  from assms obtain w1 where
    pp: "process_page c u F (logger INFO (ProcessingPageNo (pc + 1)) w) = Inr (nu, w1)"
    and w': "w' = logger INFO (ExtractedNewItems (int (json_count (files w1)) - int ic) (pc + 1)) w1"
    and c: "pc' = pc + 1" "ic' = json_count (files w1)"
    by (auto simp: crawl_iter_def Let_def split: sum.splits)
  from process_page_mono[OF pp] have "json_count (files w) \<le> json_count (files w1)" by simp
  with w' c show ?thesis by (simp add: logger_def)
qed

lemma crawl_iter_page:
  assumes "fetch c u = Response pg" "parses pg" "pagination_next pg \<noteq> Some (Anchor None)"
  shows "\<exists>w'. crawl_iter c F u pc ic w = Inr (next_of c pg, pc + 1, json_count (files w'), w')
           \<and> requests w' = requests w @ [u]
           \<and> json_count (files w) \<le> json_count (files w')"
proof -
  from process_page_parses[OF assms, of F "logger INFO (ProcessingPageNo (pc + 1)) w"]
  obtain w1 where "process_page c u F (logger INFO (ProcessingPageNo (pc + 1)) w) = Inr (next_of c pg, w1)"
    "requests w1 = requests w @ [u]" "json_count (files w) \<le> json_count (files w1)"
    by (auto simp: logger_def)
  then show ?thesis by (simp add: crawl_iter_def Let_def logger_def)
qed

lemma crawl_iter_failed:
  assumes "fetch c u = RequestException e"
  shows "\<exists>w'. crawl_iter c F u pc ic w = Inr (None, pc + 1, json_count (files w), w')
           \<and> files w' = files w \<and> requests w' = requests w @ [u]
           \<and> (ERROR, FailedToFetch u e) \<in> set (log w')"
  by (simp add: crawl_iter_def Let_def process_page_failed[OF assms] logger_def)

lemma crawl_iter_cong:
  assumes "fetch c' u = fetch c u" "urljoin c' = urljoin c" "store_name c' = store_name c"
  shows "crawl_iter c' F u pc ic w = crawl_iter c F u pc ic w"
  unfolding crawl_iter_def process_page_def base_url_def assms ..

lemma crawl_loop_stop:
  "\<not> truthy url \<Longrightarrow> crawl_loop c F url pc ic w = Some (Inr (pc, ic, w))"
  by (subst crawl_loop.simps) (simp add: truthy_def split: option.splits)

lemma crawl_loop_step:
  "u \<noteq> [] \<Longrightarrow> crawl_iter c F u pc ic w = Inr (nu, pc', ic', w') \<Longrightarrow>
   crawl_loop c F (Some u) pc ic w = crawl_loop c F nu pc' ic' w'"
  by (subst crawl_loop.simps) simp

lemma crawl_loop_path:
  assumes "path c u ps ue" "path c' u ps ue" "\<forall>p\<in>set ps. parses p"
    "store_name c' = store_name c" "urljoin c' = urljoin c"
  shows "\<exists>ic' w'.
           crawl_loop c F (Some u) pc ic w = crawl_loop c F (Some ue) (pc + length ps) ic' w'
         \<and> crawl_loop c' F (Some u) pc ic w = crawl_loop c' F (Some ue) (pc + length ps) ic' w'
         \<and> length (requests w') = length (requests w) + length ps
         \<and> json_count (files w) \<le> json_count (files w')
         \<and> (ps \<noteq> [] \<or> ic = json_count (files w) \<longrightarrow> ic' = json_count (files w'))"
  using assms(1-3)
proof (induction ps arbitrary: u pc ic w)
  case Nil
  then show ?case by auto
next
  case (Cons p ps)
  from Cons.prems(1) obtain h where u: "u \<noteq> []" and f: "fetch c u = Response p"
    and nx: "pagination_next p = Some (Anchor (Some h))"
    and rest: "path c (urljoin c (base_url c) h) ps ue"
    by (auto split: option.splits anchor.splits)
  from Cons.prems(2) nx have f': "fetch c' u = Response p"
    and rest': "path c' (urljoin c (base_url c) h) ps ue"
    using assms(4,5) by (auto simp: base_url_def)
  from Cons.prems(3) have pp: "parses p" "\<forall>q\<in>set ps. parses q" by auto
  from nx have "pagination_next p \<noteq> Some (Anchor None)" by simp
  from crawl_iter_page[OF f pp(1) this, of F pc ic w] nx obtain w1 where
    it: "crawl_iter c F u pc ic w = Inr (Some (urljoin c (base_url c) h), pc + 1, json_count (files w1), w1)"
    and rq: "requests w1 = requests w @ [u]" and mono: "json_count (files w) \<le> json_count (files w1)"
    by (auto simp: next_of_def)
  have it': "crawl_iter c' F u pc ic w = Inr (Some (urljoin c (base_url c) h), pc + 1, json_count (files w1), w1)"
    using crawl_iter_cong[of c' u c F pc ic w] f f' assms(4,5) it by simp
  from Cons.IH[OF rest rest' pp(2), of "pc + 1" "json_count (files w1)" w1]
  obtain ic' w' where
    "crawl_loop c F (Some (urljoin c (base_url c) h)) (pc + 1) (json_count (files w1)) w1
       = crawl_loop c F (Some ue) (pc + 1 + length ps) ic' w'"
    "crawl_loop c' F (Some (urljoin c (base_url c) h)) (pc + 1) (json_count (files w1)) w1
       = crawl_loop c' F (Some ue) (pc + 1 + length ps) ic' w'"
    "length (requests w') = length (requests w1) + length ps"
    "json_count (files w1) \<le> json_count (files w')"
    "ic' = json_count (files w')"
    by blast
  note tail = this
  have idx: "pc + 1 + length ps = pc + length (p # ps)" by simp
  have "crawl_loop c F (Some u) pc ic w
          = crawl_loop c F (Some (urljoin c (base_url c) h)) (pc + 1) (json_count (files w1)) w1"
    by (rule crawl_loop_step[OF u it])
  also note tail(1)
  finally have e1: "crawl_loop c F (Some u) pc ic w
          = crawl_loop c F (Some ue) (pc + length (p # ps)) ic' w'"
    by (simp only: idx)
  have "crawl_loop c' F (Some u) pc ic w
          = crawl_loop c' F (Some (urljoin c (base_url c) h)) (pc + 1) (json_count (files w1)) w1"
    by (rule crawl_loop_step[OF u it'])
  also note tail(2)
  finally have e2: "crawl_loop c' F (Some u) pc ic w
          = crawl_loop c' F (Some ue) (pc + length (p # ps)) ic' w'"
    by (simp only: idx)
  have e3: "length (requests w') = length (requests w) + length (p # ps)"
    using tail(3) rq by simp
  have e4: "json_count (files w) \<le> json_count (files w')"
    using tail(4) mono by (rule le_trans[rotated])
  from e1 e2 e3 e4 tail(5) show ?case by blast
qed

lemma crawl_loop_last:
  assumes "u \<noteq> []" "fetch c u = Response p" "parses p" "pagination_next p = None"
  shows "\<exists>w'. crawl_loop c F (Some u) pc ic w = Some (Inr (pc + 1, json_count (files w'), w'))
           \<and> requests w' = requests w @ [u]
           \<and> json_count (files w) \<le> json_count (files w')"
proof -
  from assms(4) have "pagination_next p \<noteq> Some (Anchor None)" by simp
  from crawl_iter_page[OF assms(2,3) this, of F pc ic w] assms(4) obtain w1 where
    it: "crawl_iter c F u pc ic w = Inr (None, pc + 1, json_count (files w1), w1)"
    and rq: "requests w1 = requests w @ [u]" "json_count (files w) \<le> json_count (files w1)"
    by (auto simp: next_of_def)
  from crawl_loop_step[OF assms(1) it] crawl_loop_stop[of None c F] rq show ?thesis
    by (auto simp: truthy_def)
qed

lemma crawl_loop_failed:
  assumes "u \<noteq> []" "fetch c u = RequestException e"
  shows "\<exists>w'. crawl_loop c F (Some u) pc ic w = Some (Inr (pc + 1, json_count (files w), w'))
           \<and> files w' = files w \<and> requests w' = requests w @ [u]
           \<and> (ERROR, FailedToFetch u e) \<in> set (log w')"
proof -
  from crawl_iter_failed[OF assms(2), of F pc ic w] obtain w1 where
    it: "crawl_iter c F u pc ic w = Inr (None, pc + 1, json_count (files w), w1)"
    and rq: "files w1 = files w" "requests w1 = requests w @ [u]"
      "(ERROR, FailedToFetch u e) \<in> set (log w1)"
    by blast
  from crawl_loop_step[OF assms(1) it] crawl_loop_stop[of None c F] rq show ?thesis
    by (auto simp: truthy_def)
qed

lemma crawl_loop_count:
  assumes "crawl_loop c F url pc ic w = Some y"
  shows "\<forall>pc' ic' w'. y = Inr (pc', ic', w') \<longrightarrow>
           json_count (files w) \<le> json_count (files w')
           \<and> (truthy url \<or> ic = json_count (files w) \<longrightarrow> ic' = json_count (files w'))"
proof -
  let ?P = "\<lambda>(c::crawler) (F::string option) url (pc::nat) ic w
              (y::py_error + nat \<times> nat \<times> world).
      \<forall>pc' ic' w'. y = Inr (pc', ic', w') \<longrightarrow>
           json_count (files w) \<le> json_count (files w')
           \<and> (truthy url \<or> ic = json_count (files w) \<longrightarrow> ic' = json_count (files w'))"
  have "?P c F url pc ic w y"
  proof (rule crawl_loop.raw_induct[where P = ?P, OF _ assms], goal_cases)
    case (1 loop c F url pc ic w y)
    show ?case
    proof (cases "truthy url")
      case False
      then have "url = None \<or> url = Some []"
        by (cases url) (simp_all add: truthy_def)
      with 1(2) have "y = Inr (pc, ic, w)" by auto
      with False show ?thesis by simp
    next
      case True
      then obtain u where u: "url = Some u" "u \<noteq> []"
        by (cases url) (simp_all add: truthy_def)
      show ?thesis
      proof (cases "crawl_iter c F u pc ic w")
        case (Inl e)
        with 1(2) u have "y = Inl e" by simp
        then show ?thesis by simp
      next
        case (Inr r)
        obtain nu pc1 ic1 w1 where "r = (nu, pc1, ic1, w1)" by (cases r)
        with Inr have r: "crawl_iter c F u pc ic w = Inr (nu, pc1, ic1, w1)" by simp
        with 1(2) u have "loop c F nu pc1 ic1 w1 = Some y" by simp
        from 1(1)[OF this] have IH: "\<forall>pc' ic' w'. y = Inr (pc', ic', w') \<longrightarrow>
           json_count (files w1) \<le> json_count (files w')
           \<and> (truthy nu \<or> ic1 = json_count (files w1) \<longrightarrow> ic' = json_count (files w'))" .
        from crawl_iter_counts[OF r] have cnt: "ic1 = json_count (files w1)"
          "json_count (files w) \<le> json_count (files w1)" by simp_all
        show ?thesis
        proof (intro allI impI)
          fix pc' ic' w' assume "y = Inr (pc', ic', w')"
          with IH cnt(1) have "json_count (files w1) \<le> json_count (files w')"
            "ic' = json_count (files w')" by blast+
          with cnt(2) show "json_count (files w) \<le> json_count (files w')
             \<and> (truthy url \<or> ic = json_count (files w) \<longrightarrow> ic' = json_count (files w'))"
            by simp
        qed
      qed
    qed
  qed
  then show ?thesis by simp
qed

lemma base_url_nonempty: "base_url c \<noteq> []"
  by (simp add: base_url_def)

lemma crawl_Some:
  assumes "crawl_loop c F (Some (base_url c)) 0 0 (logger INFO (StartingCrawl (store_name c) F) w)
     = Some (Inr (pc, ic, w'))"
  shows "crawl c F w = Some (Inr (pc, ic, logger INFO (CrawlCompleted (store_name c) pc ic) w'))"
  unfolding crawl_def assms by simp

lemma crawl_SomeD:
  assumes "crawl c F w = Some (Inr (pc, ic, w''))"
  shows "\<exists>w'. crawl_loop c F (Some (base_url c)) 0 0 (logger INFO (StartingCrawl (store_name c) F) w)
            = Some (Inr (pc, ic, w'))
        \<and> w'' = logger INFO (CrawlCompleted (store_name c) pc ic) w'"
proof (cases "crawl_loop c F (Some (base_url c)) 0 0 (logger INFO (StartingCrawl (store_name c) F) w)")
  case None
  with assms show ?thesis unfolding crawl_def by simp
next
  case (Some y)
  show ?thesis
  proof (cases y)
    case (Inl e)
    with Some assms show ?thesis unfolding crawl_def by simp
  next
    case (Inr r)
    obtain a b d where "r = (a, b, d)" by (cases r)
    with Inr Some assms show ?thesis unfolding crawl_def by auto
  qed
qed

lemma path_links:
  "path c u ps ue \<Longrightarrow> q \<in> set ps \<Longrightarrow>
   \<exists>h. pagination_next q = Some (Anchor (Some h)) \<and> urljoin c (base_url c) h \<noteq> []"
proof (induction ps arbitrary: u)
  case Nil then show ?case by simp
next
  case (Cons p ps)
  from Cons.prems(1) obtain h where h: "pagination_next p = Some (Anchor (Some h))"
    "urljoin c (base_url c) h \<noteq> []" "path c (urljoin c (base_url c) h) ps ue"
    by (auto split: option.splits anchor.splits)
  show ?case
  proof (cases "q = p")
    case True with h show ?thesis by blast
  next
    case False
    with Cons.prems(2) have "q \<in> set ps" by simp
    from Cons.IH[OF h(3) this] show ?thesis .
  qed
qed

lemma path_fetch_upd:
  "path c u ps ue \<Longrightarrow> fetch c ue = RequestException e \<Longrightarrow>
   path (c\<lparr>fetch := (fetch c)(ue := r)\<rparr>) u ps ue"
proof (induction ps arbitrary: u)
  case Nil then show ?case by simp
next
  case (Cons p ps)
  from Cons.prems(1) obtain h where h: "u \<noteq> []" "fetch c u = Response p"
    "pagination_next p = Some (Anchor (Some h))"
    "urljoin c (base_url c) h \<noteq> []" "path c (urljoin c (base_url c) h) ps ue"
    by (auto split: option.splits anchor.splits)
  from h(2) Cons.prems(2) have "u \<noteq> ue" by auto
  with h Cons.IH[OF h(5) Cons.prems(2)] show ?case
    by (simp add: base_url_def)
qed

lemma crawl_path_last:
  assumes "path c (base_url c) ps ue" "ue \<noteq> []" "fetch c ue = Response p"
    "pagination_next p = None" "\<forall>q\<in>set (ps @ [p]). parses q"
  shows "\<exists>w'. crawl c F w = Some (Inr (length (ps @ [p]), json_count (files w'), w'))
            \<and> length (requests w') = length (requests w) + length (ps @ [p])"
proof -
  from assms(5) have ps: "\<forall>q\<in>set ps. parses q" and pp: "parses p" by auto
  let ?w0 = "logger INFO (StartingCrawl (store_name c) F) w"
  from crawl_loop_path[OF assms(1) assms(1) ps refl refl, of F 0 0 ?w0]
  obtain ic' w1 where
    a: "crawl_loop c F (Some (base_url c)) 0 0 ?w0 = crawl_loop c F (Some ue) (0 + length ps) ic' w1"
    and b: "length (requests w1) = length (requests ?w0) + length ps"
    by blast
  from crawl_loop_last[OF assms(2,3) pp assms(4), of F "0 + length ps" ic' w1]
  obtain w2 where
    c: "crawl_loop c F (Some ue) (0 + length ps) ic' w1
          = Some (Inr (0 + length ps + 1, json_count (files w2), w2))"
    and d: "requests w2 = requests w1 @ [ue]"
    by blast
  from a c have "crawl_loop c F (Some (base_url c)) 0 0 ?w0
      = Some (Inr (length (ps @ [p]), json_count (files w2), w2))" by simp
  from crawl_Some[OF this] b d show ?thesis
    by (simp add: logger_def)
qed

lemma process_page_advances:
  assumes "path c u ps ue" "q \<in> set ps" "parses q" "fetch c v = Response q"
  shows "\<exists>h x'. pagination_next q = Some (Anchor (Some h))
           \<and> urljoin c (base_url c) h \<noteq> []
           \<and> process_page c v F x = Inr (Some (urljoin c (base_url c) h), x')"
proof -
  from path_links[OF assms(1,2)] obtain h where
    h: "pagination_next q = Some (Anchor (Some h))" "urljoin c (base_url c) h \<noteq> []" by blast
  then have "pagination_next q \<noteq> Some (Anchor None)" by simp
  from process_page_parses[OF assms(4,3) this, of F x] h show ?thesis
    by (auto simp: next_of_def)
qed

lemma crawl_loop_last_empty:
  assumes "u \<noteq> []" "fetch c u = Response p" "items p = []" "pagination_next p = None"
  shows "\<exists>w'. crawl_loop c F (Some u) pc ic w = Some (Inr (pc + 1, json_count (files w), w'))
           \<and> files w' = files w \<and> requests w' = requests w @ [u]"
proof -
  have ct: "collect_tasks (items p) F = Inr ([], [])" using assms(3) by simp
  from assms(4) have nx: "pagination_next p \<noteq> Some (Anchor None)" by simp
  from process_page_response[OF assms(2) ct nx, of "logger INFO (ProcessingPageNo (pc + 1)) w"]
    assms(4)
  obtain w1 where "process_page c u F (logger INFO (ProcessingPageNo (pc + 1)) w) = Inr (None, w1)"
    "files w1 = files w" "requests w1 = requests w @ [u]"
    by (auto simp: next_of_def logger_def)
  then have "crawl_iter c F u pc ic w = Inr (None, pc + 1, json_count (files w),
      logger INFO (ExtractedNewItems (int (json_count (files w1)) - int ic) (pc + 1)) w1)"
    by (simp add: crawl_iter_def Let_def)
  from crawl_loop_step[OF assms(1) this] crawl_loop_stop[of None c F]
    \<open>files w1 = files w\<close> \<open>requests w1 = requests w @ [u]\<close>
  show ?thesis by (auto simp: truthy_def logger_def)
qed

lemma crawl_path_failed:
  assumes "path c (base_url c) ps ue" "ue \<noteq> []" "fetch c ue = RequestException e"
    "\<forall>q\<in>set ps. parses q"
  shows "\<exists>w' w''.
           crawl c F w = Some (Inr (length ps + 1, json_count (files w'), w'))
         \<and> last (requests w') = ue
         \<and> (ERROR, FailedToFetch ue e) \<in> set (log w')
         \<and> crawl (c\<lparr>fetch := (fetch c)(ue := Response \<lparr>items = [], pagination_next = None\<rparr>)\<rparr>) F w
             = Some (Inr (length ps + 1, json_count (files w'), w''))"
proof -
  let ?c' = "c\<lparr>fetch := (fetch c)(ue := Response \<lparr>items = [], pagination_next = None\<rparr>)\<rparr>"
  let ?w0 = "logger INFO (StartingCrawl (store_name c) F) w"
  have st: "store_name ?c' = store_name c" "urljoin ?c' = urljoin c" "base_url ?c' = base_url c"
    by (simp_all add: base_url_def)
  have p': "path ?c' (base_url c) ps ue"
    by (rule path_fetch_upd[OF assms(1,3)])
  from crawl_loop_path[OF assms(1) p' assms(4) st(1,2), of F 0 0 ?w0]
  obtain ic' w1 where
    a: "crawl_loop c F (Some (base_url c)) 0 0 ?w0 = crawl_loop c F (Some ue) (0 + length ps) ic' w1"
    and a': "crawl_loop ?c' F (Some (base_url c)) 0 0 ?w0
               = crawl_loop ?c' F (Some ue) (0 + length ps) ic' w1"
    by blast
  from crawl_loop_failed[OF assms(2,3), of F "0 + length ps" ic' w1] obtain w2 where
    b: "crawl_loop c F (Some ue) (0 + length ps) ic' w1
          = Some (Inr (0 + length ps + 1, json_count (files w1), w2))"
    and b2: "files w2 = files w1" "requests w2 = requests w1 @ [ue]"
       "(ERROR, FailedToFetch ue e) \<in> set (log w2)"
    by blast
  have "fetch ?c' ue = Response \<lparr>items = [], pagination_next = None\<rparr>" by simp
  from crawl_loop_last_empty[OF assms(2) this, of F "0 + length ps" ic' w1] obtain w3 where
    d: "crawl_loop ?c' F (Some ue) (0 + length ps) ic' w1
          = Some (Inr (0 + length ps + 1, json_count (files w1), w3))"
    by auto
  from a b b2(1) have "crawl_loop c F (Some (base_url c)) 0 0 ?w0
      = Some (Inr (length ps + 1, json_count (files w2), w2))" by simp
  from crawl_Some[OF this] have r1: "crawl c F w = Some (Inr (length ps + 1, json_count (files w2),
      logger INFO (CrawlCompleted (store_name c) (length ps + 1) (json_count (files w2))) w2))" .
  from a' d b2(1) have "crawl_loop ?c' F (Some (base_url ?c')) 0 0
        (logger INFO (StartingCrawl (store_name ?c') F) w)
      = Some (Inr (length ps + 1, json_count (files w2), w3))" by (simp add: st)
  from crawl_Some[OF this] have r2: "crawl ?c' F w = Some (Inr (length ps + 1, json_count (files w2),
      logger INFO (CrawlCompleted (store_name ?c') (length ps + 1) (json_count (files w2))) w3))" .
  let ?wf = "logger INFO (CrawlCompleted (store_name c) (length ps + 1) (json_count (files w2))) w2"
  have "json_count (files ?wf) = json_count (files w2)" "last (requests ?wf) = ue"
    "(ERROR, FailedToFetch ue e) \<in> set (log ?wf)"
    using b2 by (simp_all add: logger_def)
  with r1 r2 show ?thesis by metis
qed

section \<open>Transport failure\<close>



section \<open>Progress accounting\<close>

text \<open>
  C5. After an iteration of the loop \<open>item_count\<close> is the number of \<open>.json\<close> files
  in the directory, whatever it was before, and the difference to the previous value is
  what the iteration logs for its page. The count returned by \<open>crawl\<close> is the number of
  \<open>.json\<close> files of the final directory, and it is at least the number of such files
  that were there when the crawl began.
\<close>

theorem progress_accounting:
  "(crawl_iter c F u pc ic w = Inr (nu, pc1, ic1, w1) \<longrightarrow>
      ic1 = json_count (files w1) \<and> pc1 = pc + 1
      \<and> last (log w1) = (INFO, ExtractedNewItems (int (json_count (files w1)) - int ic) (pc + 1))
      \<and> json_count (files w) \<le> ic1)
   \<and> (crawl c F w = Some (Inr (pages, n_items, w')) \<longrightarrow>
        n_items = json_count (files w') \<and> json_count (files w) \<le> n_items)"
proof (intro conjI impI)
  assume a: "crawl_iter c F u pc ic w = Inr (nu, pc1, ic1, w1)"
  from crawl_iter_counts[OF a]
  show "ic1 = json_count (files w1)" "pc1 = pc + 1"
    "last (log w1) = (INFO, ExtractedNewItems (int (json_count (files w1)) - int ic) (pc + 1))"
    "json_count (files w) \<le> ic1"
    by simp_all
next
  assume "crawl c F w = Some (Inr (pages, n_items, w'))"
  from crawl_SomeD[OF this] obtain w2 where
    l: "crawl_loop c F (Some (base_url c)) 0 0 (logger INFO (StartingCrawl (store_name c) F) w)
            = Some (Inr (pages, n_items, w2))"
    and w': "w' = logger INFO (CrawlCompleted (store_name c) pages n_items) w2" by blast
  from crawl_loop_count[OF l] base_url_nonempty[of c]
  have "json_count (files w) \<le> json_count (files w2)" "n_items = json_count (files w2)"
    by (simp_all add: truthy_def)
  with w' show "n_items = json_count (files w')" "json_count (files w) \<le> n_items" by simp_all
qed

lemma chain_store_path:
  "path chain_store (base_url chain_store) [page_a, page_b]
     ''https://www.ebay.com/sch/chain/m.html?_pgn=3''"
  by (simp add: chain_store_def base_url_def page_a_def page_b_def)

lemma chain_store_last:
  "fetch chain_store ''https://www.ebay.com/sch/chain/m.html?_pgn=3'' = Response page_c"
  "pagination_next page_c = None"
  by (simp_all add: chain_store_def page_c_def)

lemma chain_store_parses: "\<forall>q\<in>set ([page_a, page_b] @ [page_c]). parses q"
  by (simp add: parses_def page_a_def page_b_def page_c_def node_new_def node_bare_def
        node_nolink_def node_noid_def node_used_def)

theorem progress_accounting_witness:
  "\<exists>w1 n_items w'.
      crawl_iter chain_store None ''https://www.ebay.com/sch/chain/m.html'' 0 0 world_old
        = Inr (Some ''https://www.ebay.com/sch/chain/m.html?_pgn=2'', 1, json_count (files w1), w1)
    \<and> 1 \<le> json_count (files w1)
    \<and> crawl chain_store None world_old = Some (Inr (3, n_items, w'))
    \<and> n_items = json_count (files w') \<and> 1 \<le> n_items"
proof -
  have old: "json_count (files world_old) = 1"
    by code_simp
  have "fetch chain_store ''https://www.ebay.com/sch/chain/m.html'' = Response page_a"
    "parses page_a" "pagination_next page_a \<noteq> Some (Anchor None)"
    using chain_store_parses by (simp_all add: chain_store_def page_a_def)
  from crawl_iter_page[OF this, of None 0 0 world_old] obtain w1 where
    it: "crawl_iter chain_store None ''https://www.ebay.com/sch/chain/m.html'' 0 0 world_old
          = Inr (Some ''https://www.ebay.com/sch/chain/m.html?_pgn=2'', 1, json_count (files w1), w1)"
    by (auto simp: next_of_def page_a_def chain_store_def)
  from crawl_path_last[OF chain_store_path _ chain_store_last chain_store_parses, of None world_old]
  obtain w' where cr: "crawl chain_store None world_old = Some (Inr (3, json_count (files w'), w'))"
    by auto
  note t = progress_accounting [of chain_store None "''https://www.ebay.com/sch/chain/m.html''"
      0 0 world_old "Some ''https://www.ebay.com/sch/chain/m.html?_pgn=2''" 1
      "json_count (files w1)" w1 3 "json_count (files w')" w']
  from t it have "1 \<le> json_count (files w1)"
    by (simp add: old)
  moreover from t cr have "1 \<le> json_count (files w')"
    by (simp add: old)
  ultimately show ?thesis
    using it cr by blast
qed

section \<open>Termination on a finite pagination chain\<close>

text \<open>
  C7. Let the pages \<open>ps\<close> follow one another from the first URL of the store by their
  next-page links, the last link leading to a page \<open>p\<close> without such a link, and let no
  link anchor of these pages lack its \<open>href\<close>. Then \<open>crawl\<close> returns, its page count is
  the number of these pages, and it has made exactly that many requests. Every page of
  \<open>ps\<close> makes \<open>process_page\<close> answer the resolved link, whatever its listing nodes yield.
\<close>

theorem pagination_termination:
  assumes "path c (base_url c) ps ue" "ue \<noteq> []" "fetch c ue = Response p"
    "pagination_next p = None" "\<forall>q\<in>set (ps @ [p]). parses q"
  shows "(\<exists>w'. crawl c F w = Some (Inr (length (ps @ [p]), json_count (files w'), w'))
            \<and> length (requests w') = length (requests w) + length (ps @ [p]))
         \<and> (\<forall>q\<in>set ps. \<forall>v x. fetch c v = Response q \<longrightarrow>
               (\<exists>h x'. pagination_next q = Some (Anchor (Some h))
                  \<and> urljoin c (base_url c) h \<noteq> []
                  \<and> process_page c v F x = Inr (Some (urljoin c (base_url c) h), x')))"
proof
  show "\<exists>w'. crawl c F w = Some (Inr (length (ps @ [p]), json_count (files w'), w'))
            \<and> length (requests w') = length (requests w) + length (ps @ [p])"
    by (rule crawl_path_last[OF assms])
  show "\<forall>q\<in>set ps. \<forall>v x. fetch c v = Response q \<longrightarrow>
               (\<exists>h x'. pagination_next q = Some (Anchor (Some h))
                  \<and> urljoin c (base_url c) h \<noteq> []
                  \<and> process_page c v F x = Inr (Some (urljoin c (base_url c) h), x'))"
  proof (intro ballI allI impI)
    fix q v x assume q: "q \<in> set ps" and f: "fetch c v = Response q"
    from assms(5) q have "parses q" by auto
    from process_page_advances[OF assms(1) q this f]
    show "\<exists>h x'. pagination_next q = Some (Anchor (Some h))
                  \<and> urljoin c (base_url c) h \<noteq> []
                  \<and> process_page c v F x = Inr (Some (urljoin c (base_url c) h), x')" .
  qed
qed

theorem pagination_termination_witness:
  "(\<exists>w'. crawl chain_store None world0 = Some (Inr (3, json_count (files w'), w'))
        \<and> length (requests w') = 3)
   \<and> map_sum id snd (collect_tasks (items page_b) None) = Inr []
   \<and> (\<exists>x'. process_page chain_store ''https://www.ebay.com/sch/chain/m.html?_pgn=2'' None world0
              = Inr (Some ''https://www.ebay.com/sch/chain/m.html?_pgn=3'', x'))"
proof -
  have nonempty: "''https://www.ebay.com/sch/chain/m.html?_pgn=3'' \<noteq> []"
    by simp
  note t = pagination_termination [OF chain_store_path nonempty chain_store_last
      chain_store_parses, of None world0]
  have rq: "requests world0 = []"
    by (simp add: world0_def)
  have three: "length ([page_a, page_b] @ [page_c]) = 3"
    by simp
  from t[THEN conjunct1, unfolded three rq]
  have a: "\<exists>w'. crawl chain_store None world0 = Some (Inr (3, json_count (files w'), w'))
        \<and> length (requests w') = 3"
    by simp
  have none: "map_sum id snd (collect_tasks (items page_b) None) = Inr []"
    by code_simp
  have served: "fetch chain_store ''https://www.ebay.com/sch/chain/m.html?_pgn=2'' = Response page_b"
    by (simp add: chain_store_def)
  have "page_b \<in> set [page_a, page_b]"
    by simp
  from t[THEN conjunct2, rule_format, OF this served, of world0]
  have "\<exists>x'. process_page chain_store ''https://www.ebay.com/sch/chain/m.html?_pgn=2'' None world0
              = Inr (Some ''https://www.ebay.com/sch/chain/m.html?_pgn=3'', x')"
    by (auto simp: page_b_def chain_store_def)
  with a none show ?thesis by blast
qed

section \<open>The value returned after a transport failure\<close>

text \<open>
  C10. Let the pages \<open>ps\<close> follow one another from the first URL of the store and let
  the fetch of the next URL \<open>ue\<close> fail. Then \<open>crawl\<close> returns normally: the page count
  is the number of pages fetched plus the failed one, the item count is the number of
  \<open>.json\<close> files of the final directory, the failed request is the last one and the
  error is in the log. The store that differs only in serving an empty last page at
  \<open>ue\<close> returns the same pair of counts.
\<close>

theorem fetch_failure_result_shape:
  assumes "path c (base_url c) ps ue" "ue \<noteq> []" "fetch c ue = RequestException e"
    "\<forall>q\<in>set ps. parses q"
  shows "\<exists>w' w''.
           crawl c F w = Some (Inr (length ps + 1, json_count (files w'), w'))
         \<and> last (requests w') = ue
         \<and> (ERROR, FailedToFetch ue e) \<in> set (log w')
         \<and> crawl (c\<lparr>fetch := (fetch c)(ue := Response \<lparr>items = [], pagination_next = None\<rparr>)\<rparr>) F w
             = Some (Inr (length ps + 1, json_count (files w'), w''))"
  by (rule crawl_path_failed[OF assms])

theorem fetch_failure_result_shape_witness:
  "\<exists>w' w''.
      crawl flaky_store None world0 = Some (Inr (2, json_count (files w'), w'))
    \<and> last (requests w') = ''https://www.ebay.com/sch/chain/m.html?_pgn=2''
    \<and> crawl (flaky_store\<lparr>fetch := (fetch flaky_store)
                (''https://www.ebay.com/sch/chain/m.html?_pgn=2'' :=
                   Response \<lparr>items = [], pagination_next = None\<rparr>)\<rparr>) None world0
        = Some (Inr (2, json_count (files w'), w''))"
proof -
  have p: "path flaky_store (base_url flaky_store) [page_a]
      ''https://www.ebay.com/sch/chain/m.html?_pgn=2''"
    by (simp add: flaky_store_def base_url_def page_a_def)
  have nonempty: "''https://www.ebay.com/sch/chain/m.html?_pgn=2'' \<noteq> []"
    by simp
  have fails: "fetch flaky_store ''https://www.ebay.com/sch/chain/m.html?_pgn=2''
      = RequestException ''Read timed out''"
    by (simp add: flaky_store_def)
  have ok: "\<forall>q\<in>set [page_a]. parses q"
    using chain_store_parses by simp
  from fetch_failure_result_shape [OF p nonempty fails ok, of None world0]
  show ?thesis
    by auto
qed

end
